theory Spec2Isabelle
  imports Main "HOL-Library.Multiset"
begin

section \<open>Data model of \<^verbatim>\<open>easybuild/build.py\<close>\<close>

text \<open>
  A module id is the pair (name, install version).  \<^verbatim>\<open>processEasyconfig\<close> builds one
  dictionary per easyconfig with the keys \<^verbatim>\<open>spec\<close>, \<^verbatim>\<open>module\<close>, \<^verbatim>\<open>dependencies\<close>,
  optionally \<^verbatim>\<open>originalSpec\<close> (only when the file had several blocks) and
  \<^verbatim>\<open>unresolvedDependencies\<close>, a copy of the dependency list taken at creation time.
\<close>

type_synonym module_id = "string \<times> string"

record easyconfig =
  spec :: string
  module :: module_id
  dependencies :: "module_id list"
  originalSpec :: "string option"
  unresolvedDependencies :: "module_id list"

text \<open>
  The errors the resolver can end with.  Each one is a call of \<^verbatim>\<open>log.error\<close>, except
  \<open>LoadError\<close>, which is \<^verbatim>\<open>processEasyconfig\<close> failing on the file the robot found.
\<close>

datatype error =
    MaxLoopReached nat
  | ModuleNotInEasyconfig string module_id
  | DependenciesNotMet "module_id list"
  | LoadError string

text \<open>
  Modelled from the spec: the logger lives in \<^verbatim>\<open>easybuild.tools.build_log\<close>, which is not
  part of the sources.  The spec calls both the exceeded iteration cap and the remaining
  unresolved dependencies a fatal \<open>ResolutionError\<close> (sections 4.2 and 7), so
  \<^verbatim>\<open>log.error(msg)\<close> raises: it never returns to its caller.
\<close>

definition log_error :: "error \<Rightarrow> error + 'a" where
  "log_error e = Inl e"

text \<open>
  What the robot answers for one module id: \<^verbatim>\<open>robotFindEasyconfig\<close> finds no file, or it
  finds a path and \<^verbatim>\<open>processEasyconfig\<close> turns the file into easyconfigs, or fails on it.
\<close>

datatype lookup =
    NoEasyconfig
  | Easyconfig string "easyconfig list"
  | Unloadable string

type_synonym robot = "module_id \<Rightarrow> lookup"

section \<open>\<^verbatim>\<open>findResolvedModules\<close>\<close>

text \<open>
  The \<^verbatim>\<open>for\<close> loop of \<^verbatim>\<open>findResolvedModules\<close>: every module's dependency list is
  replaced by the dependencies that are not in \<open>processed\<close>; a module left with none is
  appended to the local \<open>orderedSpecs\<close> and its id to \<open>processed\<close>, which the later
  modules of the same scan already see.  The first component is the list with the
  updated modules, in place.
\<close>

fun findResolvedModules_scan ::
  "easyconfig list \<Rightarrow> module_id list \<Rightarrow> easyconfig list
    \<Rightarrow> easyconfig list \<times> module_id list \<times> easyconfig list" where
  "findResolvedModules_scan [] processed orderedSpecs = ([], processed, orderedSpecs)"
| "findResolvedModules_scan (m # ms) processed orderedSpecs =
     (let m' = m\<lparr>dependencies := filter (\<lambda>d. d \<notin> set processed) (dependencies m)\<rparr> in
      if length (dependencies m') = 0
      then (case findResolvedModules_scan ms (processed @ [module m']) (orderedSpecs @ [m']) of
              (ms', processed', orderedSpecs') \<Rightarrow> (m' # ms', processed', orderedSpecs'))
      else (case findResolvedModules_scan ms processed orderedSpecs of
              (ms', processed', orderedSpecs') \<Rightarrow> (m' # ms', processed', orderedSpecs')))"

text \<open>
  The whole function: after the scan, \<^verbatim>\<open>unprocessed[:] = [...]\<close> keeps the modules that
  still have dependencies.  The result is (the caller's \<open>unprocessed\<close> list afterwards,
  the caller's \<open>processed\<close> list afterwards, the returned list).
\<close>

definition findResolvedModules ::
  "easyconfig list \<Rightarrow> module_id list
    \<Rightarrow> easyconfig list \<times> module_id list \<times> easyconfig list" where
  "findResolvedModules unprocessed processed =
     (case findResolvedModules_scan unprocessed processed [] of
        (ms', processed', orderedSpecs) \<Rightarrow>
          (filter (\<lambda>m. length (dependencies m) > 0) ms', processed', orderedSpecs))"

lemma scan_lengths:
  "findResolvedModules_scan ms p os = (ms', p', os') \<Longrightarrow>
     length ms' = length ms \<and>
     length p' = length p + length (filter (\<lambda>m. length (dependencies m) = 0) ms') \<and>
     length os' = length os + length (filter (\<lambda>m. length (dependencies m) = 0) ms')"
proof (induction ms arbitrary: p os ms' p' os')
  case Nil
  then show ?case by simp
next
  case (Cons m ms)
  then show ?case
    by (auto simp: Let_def split: if_splits prod.splits)
qed

lemma findResolvedModules_lengths:
  assumes "findResolvedModules un p = (un', p', new)"
  shows "length un' \<le> length un"
    and "length p' + length un' = length p + length un"
    and "length new + length un' = length un"
proof -
  obtain ms' where scan: "findResolvedModules_scan un p [] = (ms', p', new)"
    and un': "un' = filter (\<lambda>m. length (dependencies m) > 0) ms'"
    using assms by (auto simp: findResolvedModules_def split: prod.splits)
  have split: "length (filter (\<lambda>m. length (dependencies m) > 0) ms')
      + length (filter (\<lambda>m. length (dependencies m) = 0) ms') = length ms'"
    using sum_length_filter_compl [of "\<lambda>m. length (dependencies m) > 0" ms'] by simp
  from scan_lengths [OF scan] split un'
  show "length un' \<le> length un"
    and "length p' + length un' = length p + length un"
    and "length new + length un' = length un"
    by auto
qed

section \<open>The loops of \<^verbatim>\<open>resolveDependencies\<close>\<close>

text \<open>
  The inner \<^verbatim>\<open>while len(processed) > lastProcessedCount\<close> loop: scan again as long as the
  previous scan made \<open>processed\<close> longer.  It is entered with \<open>lastProcessedCount = -1\<close>.
\<close>

function resolve_fixpoint ::
  "easyconfig list \<Rightarrow> module_id list \<Rightarrow> easyconfig list \<Rightarrow> int
    \<Rightarrow> easyconfig list \<times> module_id list \<times> easyconfig list" where
  "resolve_fixpoint unprocessed processed orderedSpecs lastProcessedCount =
     (if int (length processed) > lastProcessedCount
      then (case findResolvedModules unprocessed processed of
              (unprocessed', processed', new) \<Rightarrow>
                resolve_fixpoint unprocessed' processed' (orderedSpecs @ new)
                  (int (length processed)))
      else (unprocessed, processed, orderedSpecs))"
  by pat_completeness auto
termination
proof (relation "measure (\<lambda>(un, p, os, l).
         2 * length un + (if int (length p) > l then 1 else 0))")
  show "wf (measure (\<lambda>(un, p, os, l).
         2 * length un + (if int (length p) > l then 1 else 0)))"
    by simp
next
  fix un :: "easyconfig list" and p :: "module_id list" and os :: "easyconfig list"
    and l :: int and un' y p' new
  assume enter: "l < int (length p)"
    and "(un', y) = findResolvedModules un p" and "(p', new) = y"
  then have "findResolvedModules un p = (un', p', new)" by simp
  from findResolvedModules_lengths [OF this] enter
  show "((un', p', os @ new, int (length p)), un, p, os, l)
      \<in> measure (\<lambda>(un, p, os, l).
           2 * length un + (if int (length p) > l then 1 else 0))"
    by (auto split: if_splits)
qed

declare resolve_fixpoint.simps [simp del]

text \<open>
  The robot pass (the \<^verbatim>\<open>for module in unprocessed\<close> loop under \<^verbatim>\<open>if robot and ...\<close>): for
  each module in turn, the candidates are its dependencies that are not being installed;
  the robot is asked for the first candidate only.  When a path is found the file is
  processed, must contain the candidate's module, and the loop is left with the new
  easyconfigs (\<open>Some\<close>); otherwise the loop goes on with the next module.  \<open>None\<close> says
  that the loop ran to its end, leaving \<open>robotAddedDependency\<close> false.
\<close>

fun robot_scan ::
  "robot \<Rightarrow> module_id list \<Rightarrow> easyconfig list \<Rightarrow> error + easyconfig list option" where
  "robot_scan rb beingInstalled [] = Inr None"
| "robot_scan rb beingInstalled (m # ms) =
     (case filter (\<lambda>d. d \<notin> set beingInstalled) (dependencies m) of
        [] \<Rightarrow> robot_scan rb beingInstalled ms
      | c # _ \<Rightarrow>
          (case rb c of
             NoEasyconfig \<Rightarrow> robot_scan rb beingInstalled ms
           | Unloadable path \<Rightarrow> Inl (LoadError path)
           | Easyconfig path processedSpecs \<Rightarrow>
               if c \<notin> set (map module processedSpecs)
               then log_error (ModuleNotInEasyconfig path c)
               else Inr (Some processedSpecs)))"

text \<open>
  \<^verbatim>\<open>if robot and len(unprocessed) > 0\<close>: the pass runs only with a robot path configured
  and something left to process.
\<close>

definition robot_pass ::
  "robot option \<Rightarrow> easyconfig list \<Rightarrow> error + easyconfig list option" where
  "robot_pass rbo unprocessed =
     (case rbo of
        None \<Rightarrow> Inr None
      | Some rb \<Rightarrow>
          if length unprocessed > 0
          then robot_scan rb (map module unprocessed) unprocessed
          else Inr None)"

definition maxloopcnt :: nat where
  "maxloopcnt = 10000"

text \<open>
  The local state of \<^verbatim>\<open>resolveDependencies\<close>: the loop counter, the caller's list
  \<open>unprocessed\<close> (mutated in place), \<open>processed\<close> and \<open>orderedSpecs\<close>.
\<close>

record resolution =
  st_loopcnt :: nat
  st_unprocessed :: "easyconfig list"
  st_processed :: "module_id list"
  st_orderedSpecs :: "easyconfig list"

text \<open>
  The outer \<^verbatim>\<open>while robotAddedDependency\<close> loop.  The counter is incremented first and
  checked against the cap; then the inner loop runs, then the robot pass.  The loop is
  left when the robot added nothing.  The state is returned with the outcome, since the
  caller's list stays mutated also when an error is raised.
\<close>

function resolve_loop ::
  "robot option \<Rightarrow> resolution \<Rightarrow> resolution \<times> (error + unit)" where
  "resolve_loop rbo st =
     (let loopcnt = st_loopcnt st + 1 in
      if loopcnt > maxloopcnt
      then (st\<lparr>st_loopcnt := loopcnt\<rparr>, log_error (MaxLoopReached maxloopcnt))
      else
        (case resolve_fixpoint (st_unprocessed st) (st_processed st) (st_orderedSpecs st) (- 1) of
           (unprocessed, processed, orderedSpecs) \<Rightarrow>
             (let st' = \<lparr>st_loopcnt = loopcnt, st_unprocessed = unprocessed,
                         st_processed = processed, st_orderedSpecs = orderedSpecs\<rparr> in
              case robot_pass rbo unprocessed of
                Inl e \<Rightarrow> (st', Inl e)
              | Inr None \<Rightarrow> (st', Inr ())
              | Inr (Some processedSpecs) \<Rightarrow>
                  resolve_loop rbo (st'\<lparr>st_unprocessed := unprocessed @ processedSpecs\<rparr>))))"
  by pat_completeness auto
termination
  by (relation "measure (\<lambda>(rbo, st). Suc maxloopcnt - st_loopcnt st)") auto

declare resolve_loop.simps [simp del]

text \<open>
  The dictionary \<open>missingDependencies\<close> filled after the loop: every remaining dependency
  of every unprocessed module becomes a key.  The keys are kept in the order of their
  first insertion; the message prints them in the dictionary's own order, which nothing
  below depends on.
\<close>

definition dict_set :: "'k list \<Rightarrow> 'k \<Rightarrow> 'k list" where
  "dict_set ks k = (if k \<in> set ks then ks else ks @ [k])"

definition missingDependencies :: "easyconfig list \<Rightarrow> module_id list" where
  "missingDependencies unprocessed =
     foldl (\<lambda>ks m. foldl dict_set ks (dependencies m)) [] unprocessed"

text \<open>
  \<^verbatim>\<open>resolveDependencies(unprocessed, robot, log, force)\<close>.  The modules that
  \<^verbatim>\<open>Modules().available()\<close> reports are a parameter; with \<open>force\<close> the list is empty.  The
  result is the caller's list after the call, and either the error raised or the
  returned \<open>orderedSpecs\<close>.
\<close>

definition resolveDependencies ::
  "easyconfig list \<Rightarrow> robot option \<Rightarrow> bool \<Rightarrow> module_id list
    \<Rightarrow> easyconfig list \<times> (error + easyconfig list)" where
  "resolveDependencies unprocessed rbo force modules_available =
     (let availableModules = (if force then [] else modules_available);
          beingInstalled = map module unprocessed;
          processed = filter (\<lambda>m. m \<notin> set beingInstalled) availableModules
      in case resolve_loop rbo \<lparr>st_loopcnt = 0, st_unprocessed = unprocessed,
                                  st_processed = processed, st_orderedSpecs = []\<rparr> of
           (st, Inl e) \<Rightarrow> (st_unprocessed st, Inl e)
         | (st, Inr _) \<Rightarrow>
             if length (st_unprocessed st) > 0
             then (st_unprocessed st,
                   log_error (DependenciesNotMet (missingDependencies (st_unprocessed st))))
             else (st_unprocessed st, Inr (st_orderedSpecs st)))"

section \<open>Invariants of the resolution loops\<close>

text \<open>
  \<open>original m\<close> is the easyconfig as it was created: its dependency list restored from
  the copy that \<^verbatim>\<open>processEasyconfig\<close> keeps under \<^verbatim>\<open>unresolvedDependencies\<close>.
\<close>

definition original :: "easyconfig \<Rightarrow> easyconfig" where
  "original m = m\<lparr>dependencies := unresolvedDependencies m\<rparr>"

definition ordered_ok :: "module_id list \<Rightarrow> easyconfig list \<Rightarrow> bool" where
  "ordered_ok P0 os = (\<forall>i < length os. dependencies (os ! i) = [] \<and>
      (\<forall>d \<in> set (unresolvedDependencies (os ! i)).
          d \<in> set P0 \<or> (\<exists>j < i. module (os ! j) = d)))"

lemma in_module_image: "d \<in> module ` set os \<longleftrightarrow> (\<exists>j < length os. module (os ! j) = d)"
  by (metis (no_types, lifting) image_iff in_set_conv_nth)

lemma ordered_ok_snoc:
  assumes "ordered_ok P0 os" and "dependencies m = []"
    and "set (unresolvedDependencies m) \<subseteq> set P0 \<union> module ` set os"
  shows "ordered_ok P0 (os @ [m])"
  unfolding ordered_ok_def
proof (intro allI impI)
  fix i assume i: "i < length (os @ [m])"
  show "dependencies ((os @ [m]) ! i) = [] \<and>
      (\<forall>d \<in> set (unresolvedDependencies ((os @ [m]) ! i)).
          d \<in> set P0 \<or> (\<exists>j < i. module ((os @ [m]) ! j) = d))"
  proof (cases "i < length os")
    case True
    then have eq: "(os @ [m]) ! i = os ! i" by (simp add: nth_append)
    have "\<And>j. j < i \<Longrightarrow> (os @ [m]) ! j = os ! j"
      using True by (simp add: nth_append)
    then show ?thesis
      using assms(1) True unfolding ordered_ok_def eq by metis
  next
    case False
    with i have il: "i = length os" by simp
    then have eq: "(os @ [m]) ! i = m" by simp
    have "\<And>j. j < i \<Longrightarrow> (os @ [m]) ! j = os ! j"
      using il by (simp add: nth_append)
    then show ?thesis
      using assms(2,3) il unfolding eq
      by (metis (no_types, lifting) Un_iff in_module_image subsetD)
  qed
qed



lemma scan_Cons_cases:
  assumes "findResolvedModules_scan (m # ms) p os = (ms', p', os')"
  obtains (resolved) ms1 where "filter (\<lambda>d. d \<notin> set p) (dependencies m) = []"
      and "ms' = m\<lparr>dependencies := []\<rparr> # ms1"
      and "findResolvedModules_scan ms (p @ [module m]) (os @ [m\<lparr>dependencies := []\<rparr>])
             = (ms1, p', os')"
  | (pending) ms1 where "filter (\<lambda>d. d \<notin> set p) (dependencies m) \<noteq> []"
      and "ms' = m\<lparr>dependencies := filter (\<lambda>d. d \<notin> set p) (dependencies m)\<rparr> # ms1"
      and "findResolvedModules_scan ms p os = (ms1, p', os')"
  using assms by (auto simp: Let_def split: if_splits prod.splits)

lemma scan_shape:
  "findResolvedModules_scan ms p os = (ms', p', os') \<Longrightarrow>
     map original ms' = map original ms \<and>
     os' = os @ filter (\<lambda>m. length (dependencies m) = 0) ms' \<and>
     p' = p @ map module (filter (\<lambda>m. length (dependencies m) = 0) ms')"
proof (induction ms arbitrary: p os ms' p' os')
  case Nil
  then show ?case by simp
next
  case (Cons m ms)
  from Cons.prems show ?case
  proof (cases rule: scan_Cons_cases)
    case (resolved ms1)
    from Cons.IH [OF resolved(3)] resolved(1,2) show ?thesis
      by (simp add: original_def)
  next
    case (pending ms1)
    from Cons.IH [OF pending(3)] pending(1,2) show ?thesis
      by (simp add: original_def)
  qed
qed

lemma scan_order:
  assumes "findResolvedModules_scan ms p os = (ms', p', os')"
    and "p = P0 @ map module (os0 @ os)"
    and "ordered_ok P0 (os0 @ os)"
    and "\<forall>m \<in> set ms. set (unresolvedDependencies m) - set (dependencies m) \<subseteq> set p"
  shows "ordered_ok P0 (os0 @ os') \<and>
    (\<forall>m \<in> set ms'. set (unresolvedDependencies m) - set (dependencies m) \<subseteq> set p')"
  using assms
proof (induction ms arbitrary: p os ms' p' os')
  case Nil
  then show ?case by simp
next
  case (Cons m ms)
  have m_ok: "set (unresolvedDependencies m) - set (dependencies m) \<subseteq> set p"
    and ms_ok: "\<forall>m \<in> set ms. set (unresolvedDependencies m) - set (dependencies m) \<subseteq> set p"
    using Cons.prems(4) by auto
  from Cons.prems(1) show ?case
  proof (cases rule: scan_Cons_cases)
    case (resolved ms1)
    let ?m' = "m\<lparr>dependencies := []\<rparr>"
    have "set (dependencies m) \<subseteq> set p"
      using resolved(1) by (auto simp: filter_empty_conv)
    with m_ok have all_in: "set (unresolvedDependencies m) \<subseteq> set p" by auto
    then have "set (unresolvedDependencies ?m') \<subseteq> set P0 \<union> module ` set (os0 @ os)"
      using Cons.prems(2) by auto
    from ordered_ok_snoc [OF Cons.prems(3) _ this]
    have ok: "ordered_ok P0 (os0 @ os @ [?m'])" by simp
    have p_eq: "p @ [module m] = P0 @ map module (os0 @ os @ [?m'])"
      using Cons.prems(2) by simp
    have ms_ok': "\<forall>x \<in> set ms. set (unresolvedDependencies x) - set (dependencies x)
        \<subseteq> set (p @ [module m])"
      using ms_ok by auto
    from Cons.IH [OF resolved(3) p_eq ok ms_ok']
    have IH: "ordered_ok P0 (os0 @ os')"
      "\<forall>m \<in> set ms1. set (unresolvedDependencies m) - set (dependencies m) \<subseteq> set p'"
      by auto
    have "set p \<subseteq> set p'" using scan_shape [OF resolved(3)] by auto
    with all_in have "set (unresolvedDependencies ?m') - set (dependencies ?m') \<subseteq> set p'"
      by auto
    with IH resolved(2) show ?thesis by simp
  next
    case (pending ms1)
    let ?m' = "m\<lparr>dependencies := filter (\<lambda>d. d \<notin> set p) (dependencies m)\<rparr>"
    from Cons.IH [OF pending(3) Cons.prems(2,3) ms_ok]
    have IH: "ordered_ok P0 (os0 @ os')"
      "\<forall>m \<in> set ms1. set (unresolvedDependencies m) - set (dependencies m) \<subseteq> set p'"
      by auto
    have "set p \<subseteq> set p'" using scan_shape [OF pending(3)] by auto
    with m_ok have "set (unresolvedDependencies ?m') - set (dependencies ?m') \<subseteq> set p'"
      by auto
    with IH pending(2) show ?thesis by simp
  qed
qed


definition resolver_inv ::
  "module_id list \<Rightarrow> easyconfig list \<Rightarrow> module_id list \<Rightarrow> easyconfig list \<Rightarrow> bool" where
  "resolver_inv P0 un pr os \<longleftrightarrow>
     pr = P0 @ map module os \<and> ordered_ok P0 os \<and>
     (\<forall>m \<in> set un. set (unresolvedDependencies m) - set (dependencies m) \<subseteq> set pr)"

lemma findResolvedModules_shape:
  assumes "findResolvedModules un pr = (un', pr', new)"
  shows "mset (map original un') + mset (map original new) = mset (map original un)"
    and "pr' = pr @ map module new"
    and "\<forall>m \<in> set un'. dependencies m \<noteq> []"
    and "\<forall>m \<in> set new. dependencies m = []"
proof -
  obtain ms' where scan: "findResolvedModules_scan un pr [] = (ms', pr', new)"
    and un': "un' = filter (\<lambda>m. length (dependencies m) > 0) ms'"
    using assms by (auto simp: findResolvedModules_def split: prod.splits)
  from scan_shape [OF scan]
  have orig: "map original ms' = map original un"
    and new: "new = filter (\<lambda>m. length (dependencies m) = 0) ms'"
    and pr': "pr' = pr @ map module (filter (\<lambda>m. length (dependencies m) = 0) ms')"
    by auto
  have "mset (filter (\<lambda>m. length (dependencies m) > 0) ms')
      + mset (filter (\<lambda>m. length (dependencies m) = 0) ms') = mset ms'"
    by (induction ms') auto
  then have "mset un' + mset new = mset ms'" using un' new by simp
  then have "mset (map original un') + mset (map original new) = mset (map original ms')"
    by (metis image_mset_union mset_map)
  then show "mset (map original un') + mset (map original new) = mset (map original un)"
    using orig by simp
  show "pr' = pr @ map module new" using pr' new by simp
  show "\<forall>m \<in> set un'. dependencies m \<noteq> []" using un' by auto
  show "\<forall>m \<in> set new. dependencies m = []" using new by auto
qed

lemma findResolvedModules_inv:
  assumes "findResolvedModules un pr = (un', pr', new)"
    and "resolver_inv P0 un pr os"
  shows "resolver_inv P0 un' pr' (os @ new)"
proof -
  obtain ms' where scan: "findResolvedModules_scan un pr [] = (ms', pr', new)"
    and un': "un' = filter (\<lambda>m. length (dependencies m) > 0) ms'"
    using assms(1) by (auto simp: findResolvedModules_def split: prod.splits)
  from assms(2) have pr: "pr = P0 @ map module (os @ [])"
    by (simp add: resolver_inv_def)
  from assms(2) have ok: "ordered_ok P0 (os @ [])"
    by (simp add: resolver_inv_def)
  from assms(2)
  have un: "\<forall>m \<in> set un. set (unresolvedDependencies m) - set (dependencies m) \<subseteq> set pr"
    unfolding resolver_inv_def by blast
  have "ordered_ok P0 (os @ new) \<and>
    (\<forall>m \<in> set ms'. set (unresolvedDependencies m) - set (dependencies m) \<subseteq> set pr')"
    by (rule scan_order [OF scan pr ok un])
  moreover have "pr' = P0 @ map module (os @ new)"
    using findResolvedModules_shape(2) [OF assms(1)] assms(2) by (simp add: resolver_inv_def)
  ultimately show ?thesis using un' by (simp add: resolver_inv_def)
qed

lemma resolve_fixpoint_inv:
  assumes "resolve_fixpoint un pr os l = (un', pr', os')"
    and "resolver_inv P0 un pr os"
  shows "resolver_inv P0 un' pr' os'"
  using assms
proof (induction un pr os l rule: resolve_fixpoint.induct)
  case (1 un pr os l)
  show ?case
  proof (cases "int (length pr) > l")
    case True
    obtain un1 pr1 new where f: "findResolvedModules un pr = (un1, pr1, new)"
      by (metis prod_cases3)
    have rec: "resolve_fixpoint un1 pr1 (os @ new) (int (length pr)) = (un', pr', os')"
      using "1.prems"(1) True f by (simp add: resolve_fixpoint.simps [of un pr])
    from "1.IH" [OF True f [symmetric] refl rec findResolvedModules_inv [OF f "1.prems"(2)]]
    show ?thesis .
  next
    case False
    then show ?thesis using "1.prems" by (simp add: resolve_fixpoint.simps [of un pr])
  qed
qed

lemma resolve_fixpoint_mset:
  assumes "resolve_fixpoint un pr os l = (un', pr', os')"
  shows "mset (map original un') + mset (map original os')
       = mset (map original un) + mset (map original os)"
  using assms
proof (induction un pr os l rule: resolve_fixpoint.induct)
  case (1 un pr os l)
  show ?case
  proof (cases "int (length pr) > l")
    case True
    obtain un1 pr1 new where f: "findResolvedModules un pr = (un1, pr1, new)"
      by (metis prod_cases3)
    have rec: "resolve_fixpoint un1 pr1 (os @ new) (int (length pr)) = (un', pr', os')"
      using "1.prems"(1) True f by (simp add: resolve_fixpoint.simps [of un pr])
    from "1.IH" [OF True f [symmetric] refl rec] findResolvedModules_shape(1) [OF f]
    show ?thesis by (simp add: ac_simps)
  next
    case False
    then show ?thesis using "1.prems" by (simp add: resolve_fixpoint.simps [of un pr])
  qed
qed


lemma resolve_loop_induct [consumes 1, case_names cap err finished more]:
  assumes run: "resolve_loop rbo st = (st', r)"
    and cap: "\<And>st. st_loopcnt st + 1 > maxloopcnt \<Longrightarrow>
        P st (st\<lparr>st_loopcnt := st_loopcnt st + 1\<rparr>) (Inl (MaxLoopReached maxloopcnt))"
    and err: "\<And>st un pr os e.
        st_loopcnt st + 1 \<le> maxloopcnt \<Longrightarrow>
        resolve_fixpoint (st_unprocessed st) (st_processed st) (st_orderedSpecs st) (- 1)
          = (un, pr, os) \<Longrightarrow>
        robot_pass rbo un = Inl e \<Longrightarrow>
        P st \<lparr>st_loopcnt = st_loopcnt st + 1, st_unprocessed = un,
               st_processed = pr, st_orderedSpecs = os\<rparr> (Inl e)"
    and finished: "\<And>st un pr os.
        st_loopcnt st + 1 \<le> maxloopcnt \<Longrightarrow>
        resolve_fixpoint (st_unprocessed st) (st_processed st) (st_orderedSpecs st) (- 1)
          = (un, pr, os) \<Longrightarrow>
        robot_pass rbo un = Inr None \<Longrightarrow>
        P st \<lparr>st_loopcnt = st_loopcnt st + 1, st_unprocessed = un,
               st_processed = pr, st_orderedSpecs = os\<rparr> (Inr ())"
    and more: "\<And>st un pr os ss st' r.
        st_loopcnt st + 1 \<le> maxloopcnt \<Longrightarrow>
        resolve_fixpoint (st_unprocessed st) (st_processed st) (st_orderedSpecs st) (- 1)
          = (un, pr, os) \<Longrightarrow>
        robot_pass rbo un = Inr (Some ss) \<Longrightarrow>
        resolve_loop rbo \<lparr>st_loopcnt = st_loopcnt st + 1, st_unprocessed = un @ ss,
               st_processed = pr, st_orderedSpecs = os\<rparr> = (st', r) \<Longrightarrow>
        P \<lparr>st_loopcnt = st_loopcnt st + 1, st_unprocessed = un @ ss,
               st_processed = pr, st_orderedSpecs = os\<rparr> st' r \<Longrightarrow>
        P st st' r"
  shows "P st st' r"
  using run
proof (induction "Suc maxloopcnt - st_loopcnt st" arbitrary: st rule: less_induct)
  case less
  show ?case
  proof (cases "st_loopcnt st + 1 > maxloopcnt")
    case True
    then show ?thesis
      using less.prems cap [OF True] by (simp add: resolve_loop.simps [of rbo st] log_error_def)
  next
    case False
    obtain un pr os where fp:
      "resolve_fixpoint (st_unprocessed st) (st_processed st) (st_orderedSpecs st) (- 1)
         = (un, pr, os)"
      by (metis prod_cases3)
    from False have le: "st_loopcnt st + 1 \<le> maxloopcnt" by simp
    show ?thesis
    proof (cases "robot_pass rbo un")
      case (Inl e)
      then show ?thesis
        using less.prems False fp err [OF le fp Inl]
        by (simp add: resolve_loop.simps [of rbo st])
    next
      case (Inr res)
      show ?thesis
      proof (cases res)
        case None
        then show ?thesis
          using less.prems False fp Inr finished [OF le fp]
          by (simp add: resolve_loop.simps [of rbo st])
      next
        case (Some ss)
        let ?next = "\<lparr>st_loopcnt = st_loopcnt st + 1, st_unprocessed = un @ ss,
               st_processed = pr, st_orderedSpecs = os\<rparr>"
        have rec: "resolve_loop rbo ?next = (st', r)"
          using less.prems False fp Inr Some by (simp add: resolve_loop.simps [of rbo st])
        have "Suc maxloopcnt - st_loopcnt ?next < Suc maxloopcnt - st_loopcnt st"
          using le by simp
        from less.hyps [OF this rec] have "P ?next st' r" .
        from more [OF le fp _ rec this] Inr Some show ?thesis by simp
      qed
    qed
  qed
qed

text \<open>
  \<open>robot_supplies rbo s\<close>: the configured robot answers some query with a file whose
  easyconfigs include \<open>s\<close>.
\<close>

definition robot_supplies :: "robot option \<Rightarrow> easyconfig \<Rightarrow> bool" where
  "robot_supplies rbo s \<longleftrightarrow>
     (\<exists>rb q path ss. rbo = Some rb \<and> rb q = Easyconfig path ss \<and> s \<in> set ss)"

lemma robot_scan_Some:
  "robot_scan rb bi un = Inr (Some ss) \<Longrightarrow> \<exists>q path. rb q = Easyconfig path ss"
proof (induction un)
  case Nil
  then show ?case by simp
next
  case (Cons m ms)
  then show ?case
    by (auto simp: log_error_def split: list.splits lookup.splits if_splits)
qed

lemma robot_pass_Some:
  assumes "robot_pass rbo un = Inr (Some ss)"
  shows "\<forall>s \<in> set ss. robot_supplies rbo s"
proof -
  from assms obtain rb where rb: "rbo = Some rb"
    and "robot_scan rb (map module un) un = Inr (Some ss)"
    by (auto simp: robot_pass_def split: option.splits if_splits)
  from robot_scan_Some [OF this(2)] rb show ?thesis
    by (auto simp: robot_supplies_def)
qed

lemma resolve_loop_inv:
  assumes "resolve_loop rbo st = (st', r)"
    and "resolver_inv P0 (st_unprocessed st) (st_processed st) (st_orderedSpecs st)"
    and robot_ok: "\<forall>s. robot_supplies rbo s \<longrightarrow> unresolvedDependencies s = dependencies s"
  shows "resolver_inv P0 (st_unprocessed st') (st_processed st') (st_orderedSpecs st')"
  using assms(1,2)
proof (induction rule: resolve_loop_induct)
  case (cap st)
  then show ?case by simp
next
  case (err st un pr os e)
  then show ?case using resolve_fixpoint_inv by auto
next
  case (finished st un pr os)
  then show ?case using resolve_fixpoint_inv by auto
next
  case (more st un pr os ss st' r)
  from resolve_fixpoint_inv [OF more(2) more.prems]
  have inv: "resolver_inv P0 un pr os" .
  have "\<forall>s \<in> set ss. unresolvedDependencies s = dependencies s"
    using robot_pass_Some [OF more(3)] robot_ok by blast
  then have "\<forall>m \<in> set ss. set (unresolvedDependencies m) - set (dependencies m) \<subseteq> set pr"
    by simp
  with inv have "resolver_inv P0 (un @ ss) pr os"
    unfolding resolver_inv_def by (metis Un_iff set_append)
  with more.IH show ?case by simp
qed

lemma resolve_loop_mset:
  assumes "resolve_loop rbo st = (st', r)"
  shows "\<exists>added. mset (map original (st_unprocessed st')) + mset (map original (st_orderedSpecs st'))
       = mset (map original (st_unprocessed st)) + mset (map original (st_orderedSpecs st)) + added
     \<and> (\<forall>s \<in># added. \<exists>s'. robot_supplies rbo s' \<and> s = original s')"
  using assms
proof (induction rule: resolve_loop_induct)
  case (cap st)
  then show ?case by simp
next
  case (err st un pr os e)
  then show ?case using resolve_fixpoint_mset by auto
next
  case (finished st un pr os)
  then show ?case  using resolve_fixpoint_mset by auto
next
  case (more st un pr os ss st' r)
  from more.IH obtain added where
    a: "mset (map original (st_unprocessed st')) + mset (map original (st_orderedSpecs st'))
       = mset (map original (un @ ss)) + mset (map original os) + added"
    and b: "\<forall>s \<in># added. \<exists>s'. robot_supplies rbo s' \<and> s = original s'"
    by auto
  let ?added = "mset (map original ss) + added"
  have "mset (map original (st_unprocessed st')) + mset (map original (st_orderedSpecs st'))
       = mset (map original (st_unprocessed st)) + mset (map original (st_orderedSpecs st)) + ?added"
    using a resolve_fixpoint_mset [OF more(2)] by (simp add: ac_simps)
  moreover have "\<forall>s \<in># ?added. \<exists>s'. robot_supplies rbo s' \<and> s = original s'"
    using b robot_pass_Some [OF more(3)] by auto
  ultimately show ?case by blast
qed


lemma resolveDependencies_Inr:
  assumes "resolveDependencies easyconfigs rbo force modules_available = (un', Inr orderedSpecs)"
  obtains st where
    "resolve_loop rbo \<lparr>st_loopcnt = 0, st_unprocessed = easyconfigs,
        st_processed = filter (\<lambda>m. m \<notin> set (map module easyconfigs))
                         (if force then [] else modules_available),
        st_orderedSpecs = []\<rparr> = (st, Inr ())"
    and "st_unprocessed st = []" and "st_orderedSpecs st = orderedSpecs" and "un' = []"
  using assms
  by (auto simp: resolveDependencies_def Let_def log_error_def
           split: prod.splits sum.splits if_splits)

section \<open>The order returned by \<^verbatim>\<open>resolveDependencies\<close>\<close>

text \<open>
  Example used below: B depends on A and on X, C depends on B.  X and C are installed
  modules, but C is also being installed in this run.  A is not given; the robot finds
  it.
\<close>

definition ex_ec :: "string \<Rightarrow> string list \<Rightarrow> easyconfig" where
  "ex_ec n ds = \<lparr>spec = n @ ''.eb'', module = (n, ''1.0''),
      dependencies = map (\<lambda>d. (d, ''1.0'')) ds, originalSpec = None,
      unresolvedDependencies = map (\<lambda>d. (d, ''1.0'')) ds\<rparr>"

definition ex_robot :: robot where
  "ex_robot q = (if q = (''A'', ''1.0'') then Easyconfig ''/robot/A.eb'' [ex_ec ''A'' []]
                 else NoEasyconfig)"

definition ex_input :: "easyconfig list" where
  "ex_input = [ex_ec ''B'' [''A'', ''X''], ex_ec ''C'' [''B'']]"

definition ex_available :: "module_id list" where
  "ex_available = [(''X'', ''1.0''), (''C'', ''1.0'')]"

definition ex_output :: "easyconfig list" where
  "ex_output = [ex_ec ''A'' [], (ex_ec ''B'' [''A'', ''X''])\<lparr>dependencies := []\<rparr>,
                (ex_ec ''C'' [''B''])\<lparr>dependencies := []\<rparr>]"

definition c1_robot :: robot where
  "c1_robot q =
     (if q = (''X'', ''1.0'')
      then Easyconfig ''/robot/X.eb'' [ex_ec ''X'' [], ex_ec ''Y'' [''Z'']]
      else if q = (''Z'', ''1.0'') then Easyconfig ''/robot/Z.eb'' [ex_ec ''Z'' []]
      else NoEasyconfig)"

definition c1_output :: "easyconfig list" where
  "c1_output = [ex_ec ''X'' [], (ex_ec ''A'' [''X'', ''Y''])\<lparr>dependencies := []\<rparr>,
                ex_ec ''Z'' [], (ex_ec ''Y'' [''Z''])\<lparr>dependencies := []\<rparr>]"

text \<open>
  Claim C1, as stated, against the code.  A depends on X and on Y.  Y is an installed
  module and is not among the given easyconfigs, so A's dependency on Y counts as met
  from the start.  The file the robot finds for X holds a second easyconfig, for Y
  itself, which depends on Z.  The order returned is X, A, Z, Y: Y is installed in this
  run, and it comes after A, which depends on it.
\<close>

theorem resolveDependencies_order_counterexample:
  "resolveDependencies [ex_ec ''A'' [''X'', ''Y'']] (Some c1_robot) False [(''Y'', ''1.0'')]
     = ([], Inr c1_output) \<and>
   map module c1_output = [(''X'', ''1.0''), (''A'', ''1.0''), (''Z'', ''1.0''), (''Y'', ''1.0'')] \<and>
   (''Y'', ''1.0'') \<in> set (unresolvedDependencies (c1_output ! 1)) \<and>
   (''Y'', ''1.0'') \<in> set (map module c1_output) \<and>
   (''Y'', ''1.0'') \<notin> set (map module (take 1 c1_output))"
  by code_simp

text \<open>
  Claim C1, amended.  Let the easyconfigs given to \<^verbatim>\<open>resolveDependencies\<close> and those the
  robot supplies be as \<^verbatim>\<open>processEasyconfig\<close> creates them (the copy under
  \<^verbatim>\<open>unresolvedDependencies\<close> equals the dependency list), and let the call succeed.  Then
  the returned list, with the dependency lists restored, holds exactly the given
  easyconfigs, each as often as it was given, and besides them only easyconfigs supplied
  by the robot; and every original dependency of the easyconfig at position \<open>i\<close> is an
  available module that is not the module of a given easyconfig, or is the module of an
  easyconfig at an earlier position.  Only the modules of the given easyconfigs are
  taken out of the available ones, not those of the easyconfigs that the robot adds.
\<close>

theorem resolveDependencies_order:
  assumes input_ok: "\<forall>s \<in> set easyconfigs. unresolvedDependencies s = dependencies s"
    and robot_ok: "\<forall>s. robot_supplies rbo s \<longrightarrow> unresolvedDependencies s = dependencies s"
    and success:
      "resolveDependencies easyconfigs rbo force modules_available = (un', Inr orderedSpecs)"
  shows "(\<exists>added. mset (map original orderedSpecs) = mset easyconfigs + added \<and>
            (\<forall>s \<in># added. robot_supplies rbo s)) \<and>
         (\<forall>i < length orderedSpecs.
            \<forall>d \<in> set (unresolvedDependencies (orderedSpecs ! i)).
              (\<not> force \<and> d \<in> set modules_available \<and> d \<notin> module ` set easyconfigs) \<or>
              (\<exists>j < i. module (orderedSpecs ! j) = d))"
proof -
  let ?P0 = "filter (\<lambda>m. m \<notin> set (map module easyconfigs))
               (if force then [] else modules_available)"
  let ?st0 = "\<lparr>st_loopcnt = 0, st_unprocessed = easyconfigs,
                st_processed = ?P0, st_orderedSpecs = []\<rparr>"
  from success obtain st where run: "resolve_loop rbo ?st0 = (st, Inr ())"
    and un: "st_unprocessed st = []" and os: "st_orderedSpecs st = orderedSpecs"
    by (rule resolveDependencies_Inr)
  have orig_in: "map original easyconfigs = easyconfigs"
    using input_ok by (simp add: original_def map_idI)
  have orig_rb: "\<And>s. robot_supplies rbo s \<Longrightarrow> original s = s"
    using robot_ok by (simp add: original_def)
  from resolve_loop_mset [OF run] obtain added where
    a: "mset (map original orderedSpecs) = mset easyconfigs + added"
    and b: "\<forall>s \<in># added. \<exists>s'. robot_supplies rbo s' \<and> s = original s'"
    using un os orig_in by auto
  from b orig_rb have "\<forall>s \<in># added. robot_supplies rbo s" by metis
  with a have first: "\<exists>added. mset (map original orderedSpecs) = mset easyconfigs + added \<and>
            (\<forall>s \<in># added. robot_supplies rbo s)" by blast
  have "resolver_inv ?P0 (st_unprocessed ?st0) (st_processed ?st0) (st_orderedSpecs ?st0)"
    using input_ok by (simp add: resolver_inv_def ordered_ok_def)
  from resolve_loop_inv [OF run this robot_ok] os
  have "ordered_ok ?P0 orderedSpecs" by (simp add: resolver_inv_def)
  then have second: "\<forall>i < length orderedSpecs.
            \<forall>d \<in> set (unresolvedDependencies (orderedSpecs ! i)).
              (\<not> force \<and> d \<in> set modules_available \<and> d \<notin> module ` set easyconfigs) \<or>
              (\<exists>j < i. module (orderedSpecs ! j) = d)"
    unfolding ordered_ok_def by (auto split: if_splits)
  from first second show ?thesis by blast
qed

theorem resolveDependencies_order_witness:
  "list_all (\<lambda>s. unresolvedDependencies s = dependencies s) ex_input \<and>
   resolveDependencies ex_input (Some ex_robot) False ex_available = ([], Inr ex_output) \<and>
   mset ex_input \<subseteq># mset (map original ex_output) \<and>
   set (unresolvedDependencies (ex_output ! 1))
     \<subseteq> {d. d \<in> set ex_available \<and> d \<notin> module ` set ex_input} \<union> module ` set (take 1 ex_output)"
proof -
  have h1: "\<forall>s \<in> set ex_input. unresolvedDependencies s = dependencies s"
    by (simp add: ex_input_def ex_ec_def)
  have h2: "\<forall>s. robot_supplies (Some ex_robot) s \<longrightarrow> unresolvedDependencies s = dependencies s"
    by (auto simp: robot_supplies_def ex_robot_def ex_ec_def split: if_splits)
  have run: "resolveDependencies ex_input (Some ex_robot) False ex_available
      = ([], Inr ex_output)"
    by code_simp
  note ord = resolveDependencies_order [OF h1 h2 run]
  from ord have "mset ex_input \<subseteq># mset (map original ex_output)"
    by (metis mset_subset_eq_add_left)
  moreover have "set (unresolvedDependencies (ex_output ! 1))
     \<subseteq> {d. d \<in> set ex_available \<and> d \<notin> module ` set ex_input} \<union> module ` set (take 1 ex_output)"
  proof
    fix d assume d: "d \<in> set (unresolvedDependencies (ex_output ! 1))"
    have "1 < length ex_output" by (simp add: ex_output_def)
    with ord d have "(d \<in> set ex_available \<and> d \<notin> module ` set ex_input) \<or>
        (\<exists>j < 1. module (ex_output ! j) = d)" by blast
    then show "d \<in> {d. d \<in> set ex_available \<and> d \<notin> module ` set ex_input}
        \<union> module ` set (take 1 ex_output)"
      by (auto simp: ex_output_def)
  qed
  ultimately show ?thesis using h1 run by (simp add: list_all_iff)
qed

section \<open>The caller's list after resolution\<close>

text \<open>
  The part of \<^verbatim>\<open>main\<close> around the resolver.  \<^verbatim>\<open>main\<close> passes its list \<open>easyconfigs\<close> to
  \<^verbatim>\<open>resolveDependencies\<close> when the list is not empty (otherwise the order is empty), and
  after the builds it loops over the same list object and removes the file of every
  easyconfig that has the key \<^verbatim>\<open>originalSpec\<close>.  \<open>main_cleanup\<close> is the list of paths that
  loop passes to \<^verbatim>\<open>os.remove\<close>.
\<close>

definition main_order ::
  "easyconfig list \<Rightarrow> robot option \<Rightarrow> bool \<Rightarrow> module_id list
    \<Rightarrow> easyconfig list \<times> (error + easyconfig list)" where
  "main_order easyconfigs rbo force modules_available =
     (if length easyconfigs > 0
      then resolveDependencies easyconfigs rbo force modules_available
      else (easyconfigs, Inr []))"

definition main_cleanup :: "easyconfig list \<Rightarrow> string list" where
  "main_cleanup easyconfigs = map spec (filter (\<lambda>ec. originalSpec ec \<noteq> None) easyconfigs)"

definition ex_block :: "string \<Rightarrow> string list \<Rightarrow> easyconfig" where
  "ex_block n ds = (ex_ec n ds)\<lparr>spec := ''/tmp/easybuild-pkg.eb-'' @ n,
                                originalSpec := Some ''pkg.eb''\<rparr>"

text \<open>
  Claim C10.  The resolver works on the caller's list itself.  One call of
  \<^verbatim>\<open>findResolvedModules\<close> splits the list it is given: the easyconfigs left without
  dependencies are returned (to be appended to the order) and are no longer in the list,
  the others stay.  When \<^verbatim>\<open>resolveDependencies\<close> succeeds, the list of \<^verbatim>\<open>main\<close> is empty
  afterwards, so the cleanup loop of \<^verbatim>\<open>main\<close> removes no file.
\<close>

theorem resolveDependencies_empties_list:
  assumes "main_order easyconfigs rbo force modules_available = (easyconfigs', Inr orderedSpecs)"
  shows "easyconfigs' = [] \<and> main_cleanup easyconfigs' = [] \<and>
    (\<forall>unprocessed processed unprocessed' processed' new.
       findResolvedModules unprocessed processed = (unprocessed', processed', new) \<longrightarrow>
         mset (map original unprocessed') + mset (map original new)
           = mset (map original unprocessed) \<and>
         (\<forall>m \<in> set new. dependencies m = []) \<and>
         (\<forall>m \<in> set unprocessed'. dependencies m \<noteq> []))"
proof -
  have "easyconfigs' = []"
  proof (cases "length easyconfigs > 0")
    case True
    with assms have "resolveDependencies easyconfigs rbo force modules_available
        = (easyconfigs', Inr orderedSpecs)"
      by (simp add: main_order_def)
    then show ?thesis by (rule resolveDependencies_Inr)
  next
    case False
    with assms show ?thesis by (simp add: main_order_def)
  qed
  then show ?thesis
    using findResolvedModules_shape by (simp add: main_cleanup_def)
qed

theorem resolveDependencies_empties_list_witness:
  "main_order [ex_block ''B'' [''A''], ex_block ''A'' []] None False []
     = ([], Inr [ex_block ''A'' [], (ex_block ''B'' [''A''])\<lparr>dependencies := []\<rparr>]) \<and>
   main_cleanup [ex_block ''B'' [''A''], ex_block ''A'' []]
     = [''/tmp/easybuild-pkg.eb-B'', ''/tmp/easybuild-pkg.eb-A''] \<and>
   main_cleanup (fst (main_order [ex_block ''B'' [''A''], ex_block ''A'' []] None False [])) = []"
proof -
  have run: "main_order [ex_block ''B'' [''A''], ex_block ''A'' []] None False []
     = ([], Inr [ex_block ''A'' [], (ex_block ''B'' [''A''])\<lparr>dependencies := []\<rparr>])"
    by code_simp
  have before: "main_cleanup [ex_block ''B'' [''A''], ex_block ''A'' []]
     = [''/tmp/easybuild-pkg.eb-B'', ''/tmp/easybuild-pkg.eb-A'']"
    by (simp add: main_cleanup_def ex_block_def ex_ec_def)
  from resolveDependencies_empties_list [OF run] run before show ?thesis by simp
qed

section \<open>The iteration cap\<close>

lemma robot_scan_Inl:
  "robot_scan rb bi un = Inl e \<Longrightarrow> e \<noteq> MaxLoopReached n"
proof (induction un)
  case Nil
  then show ?case by simp
next
  case (Cons m ms)
  then show ?case
    by (auto simp: log_error_def split: list.splits lookup.splits if_splits)
qed

lemma robot_pass_Inl: "robot_pass rbo un = Inl e \<Longrightarrow> e \<noteq> MaxLoopReached n"
  using robot_scan_Inl by (auto simp: robot_pass_def split: option.splits if_splits)

lemma resolve_loop_counter:
  assumes "resolve_loop rbo st = (st', r)"
  shows "st_loopcnt st < st_loopcnt st' \<and>
         st_loopcnt st' \<le> max (st_loopcnt st + 1) (Suc maxloopcnt) \<and>
         ((st_loopcnt st' > maxloopcnt) = (r = Inl (MaxLoopReached maxloopcnt)))"
  using assms
proof (induction rule: resolve_loop_induct)
  case (cap st)
  then show ?case by simp
next
  case (err st un pr os e)
  then show ?case using robot_pass_Inl [OF err(3)] by auto
next
  case (finished st un pr os)
  then show ?case by simp
next
  case (more st un pr os ss st' r)
  then show ?case by auto
qed


text \<open>
  A robot that never converges: whatever module it is asked for, it finds an easyconfig
  of that module which depends on a further module, one version digit longer.
\<close>

definition endless_ec :: "module_id \<Rightarrow> easyconfig" where
  "endless_ec q = \<lparr>spec = ''/robot/'' @ fst q @ ''.eb'', module = q,
      dependencies = [(fst q, snd q @ ''1'')], originalSpec = None,
      unresolvedDependencies = [(fst q, snd q @ ''1'')]\<rparr>"

definition endless_robot :: robot where
  "endless_robot q = Easyconfig (''/robot/'' @ fst q @ ''.eb'') [endless_ec q]"

definition endless_chain :: "nat \<Rightarrow> easyconfig list" where
  "endless_chain k = map (\<lambda>i. endless_ec (''D'', replicate i CHR ''1'')) [0..<k]"

lemma scan_nothing_processed:
  "\<forall>m \<in> set ms. dependencies m \<noteq> [] \<Longrightarrow>
     findResolvedModules_scan ms [] os = (ms, [], os)"
  by (induction ms) auto

lemma resolve_fixpoint_nothing_processed:
  assumes "\<forall>m \<in> set un. dependencies m \<noteq> []"
  shows "resolve_fixpoint un [] os (- 1) = (un, [], os)"
proof -
  have "filter (\<lambda>m. dependencies m \<noteq> []) un = un"
    using assms by (simp add: filter_id_conv)
  then have f: "findResolvedModules un [] = (un, [], [])"
    using scan_nothing_processed [OF assms, of "[]"] by (simp add: findResolvedModules_def)
  have "resolve_fixpoint un [] os (- 1) = resolve_fixpoint un [] os 0"
    using f by (simp add: resolve_fixpoint.simps [of un "[]" os "- 1"])
  then show ?thesis by (simp add: resolve_fixpoint.simps [of un "[]" os 0])
qed

lemma endless_scan:
  assumes "i < k"
  shows "robot_scan endless_robot (map module (endless_chain k))
           (map (\<lambda>i. endless_ec (''D'', replicate i CHR ''1'')) [i..<k])
         = Inr (Some [endless_ec (''D'', replicate k CHR ''1'')])"
  using assms
proof (induction rule: strict_inc_induct)
  case (base i)
  have notin: "(''D'', replicate (Suc i) CHR ''1'') \<notin> set (map module (endless_chain (Suc i)))"
    by (auto simp: endless_chain_def endless_ec_def replicate_eq_replicate simp del: replicate_Suc)
  have "[i..<k] = [i]" using base by simp
  then show ?case
    using notin base
    by (simp add: endless_ec_def endless_robot_def replicate_append_same)
next
  case (step i)
  have isin: "(''D'', replicate (Suc i) CHR ''1'') \<in> set (map module (endless_chain k))"
    using step.hyps by (auto simp: endless_chain_def endless_ec_def image_iff simp del: replicate_Suc)
  have "[i..<k] = i # [Suc i..<k]" using step.hyps by (simp add: upt_conv_Cons)
  then show ?case
    using isin step.IH
    by (simp add: endless_ec_def replicate_append_same)
qed


lemma endless_chain_deps: "\<forall>m \<in> set (endless_chain k). dependencies m \<noteq> []"
  by (simp add: endless_chain_def endless_ec_def)

lemma endless_pass:
  assumes "0 < k"
  shows "robot_pass (Some endless_robot) (endless_chain k)
         = Inr (Some [endless_ec (''D'', replicate k CHR ''1'')])"
proof -
  have "endless_chain k = map (\<lambda>i. endless_ec (''D'', replicate i CHR ''1'')) [0..<k]"
    by (simp add: endless_chain_def)
  with endless_scan [OF assms] assms show ?thesis
    by (simp add: robot_pass_def endless_chain_def)
qed

lemma endless_loop:
  assumes "0 < k" and "l \<le> maxloopcnt"
  shows "resolve_loop (Some endless_robot)
           \<lparr>st_loopcnt = l, st_unprocessed = endless_chain k,
            st_processed = [], st_orderedSpecs = []\<rparr>
         = (\<lparr>st_loopcnt = Suc maxloopcnt,
             st_unprocessed = endless_chain (k + (maxloopcnt - l)),
             st_processed = [], st_orderedSpecs = []\<rparr>,
            Inl (MaxLoopReached maxloopcnt))"
  using assms
proof (induction "maxloopcnt - l" arbitrary: k l)
  case 0
  then have "l = maxloopcnt" by simp
  then show ?case
    by (simp add: resolve_loop.simps [of _ "\<lparr>st_loopcnt = maxloopcnt, st_unprocessed = endless_chain k,
            st_processed = [], st_orderedSpecs = []\<rparr>"] log_error_def)
next
  case (Suc n)
  then have l: "l < maxloopcnt" and n: "n = maxloopcnt - Suc l" by simp_all
  have next_chain: "endless_chain k @ [endless_ec (''D'', replicate k CHR ''1'')]
      = endless_chain (Suc k)"
    by (simp add: endless_chain_def)
  have "resolve_loop (Some endless_robot)
           \<lparr>st_loopcnt = l, st_unprocessed = endless_chain k,
            st_processed = [], st_orderedSpecs = []\<rparr>
      = resolve_loop (Some endless_robot)
           \<lparr>st_loopcnt = Suc l, st_unprocessed = endless_chain (Suc k),
            st_processed = [], st_orderedSpecs = []\<rparr>"
    using l resolve_fixpoint_nothing_processed [OF endless_chain_deps, of k "[]"]
      endless_pass [OF Suc.prems(1)] next_chain
    by (simp add: resolve_loop.simps [of _ "\<lparr>st_loopcnt = l, st_unprocessed = endless_chain k,
            st_processed = [], st_orderedSpecs = []\<rparr>"])
  also have "\<dots> = (\<lparr>st_loopcnt = Suc maxloopcnt,
             st_unprocessed = endless_chain (Suc k + (maxloopcnt - Suc l)),
             st_processed = [], st_orderedSpecs = []\<rparr>,
            Inl (MaxLoopReached maxloopcnt))"
  proof (rule Suc.hyps(1) [OF n])
    show "0 < Suc k" by simp
    show "Suc l \<le> maxloopcnt" using l by simp
  qed
  also have "Suc k + (maxloopcnt - Suc l) = k + (maxloopcnt - l)"
    using l by arith
  finally show ?case .
qed

text \<open>
  Claim C5.  Started as \<^verbatim>\<open>resolveDependencies\<close> starts it (counter 0), the outer loop
  ends with its counter at most one above the cap of 10000, and the counter is above the
  cap exactly when the loop ended with the error that the cap raises: at most 10000
  iterations run the two passes.  The loops are total functions, so the resolver returns
  on every input; with the robot above, which supplies a new easyconfig in every
  iteration, it returns the cap error after 10000 iterations.
\<close>

theorem resolve_loop_capped:
  "(case resolve_loop rbo \<lparr>st_loopcnt = 0, st_unprocessed = unprocessed,
           st_processed = processed, st_orderedSpecs = []\<rparr> of
      (st', r) \<Rightarrow> st_loopcnt st' \<le> Suc maxloopcnt \<and>
         ((st_loopcnt st' = Suc maxloopcnt) = (r = Inl (MaxLoopReached maxloopcnt)))) \<and>
   maxloopcnt = 10000 \<and>
   resolveDependencies (endless_chain 1) (Some endless_robot) False []
     = (endless_chain 10001, Inl (MaxLoopReached 10000))"
proof -
  obtain st' r where run: "resolve_loop rbo \<lparr>st_loopcnt = 0, st_unprocessed = unprocessed,
           st_processed = processed, st_orderedSpecs = []\<rparr> = (st', r)"
    by (metis surj_pair)
  from resolve_loop_counter [OF run]
  have "st_loopcnt st' \<le> Suc maxloopcnt \<and>
         ((st_loopcnt st' = Suc maxloopcnt) = (r = Inl (MaxLoopReached maxloopcnt)))"
    by auto
  moreover have "resolveDependencies (endless_chain 1) (Some endless_robot) False []
     = (endless_chain 10001, Inl (MaxLoopReached 10000))"
    using endless_loop [of 1 0]
    by (simp add: resolveDependencies_def maxloopcnt_def)
  ultimately show ?thesis using run by (simp add: maxloopcnt_def)
qed

section \<open>The robot pass\<close>

text \<open>
  The first candidate of a module: its first dependency that is not the module of an
  unprocessed easyconfig (\<^verbatim>\<open>candidates[0]\<close>), if there is one.
\<close>

definition first_candidate :: "module_id list \<Rightarrow> easyconfig \<Rightarrow> module_id option" where
  "first_candidate beingInstalled m =
     (case filter (\<lambda>d. d \<notin> set beingInstalled) (dependencies m) of
        [] \<Rightarrow> None
      | c # _ \<Rightarrow> Some c)"

text \<open>
  What the robot's answer for the candidate \<open>c\<close> leads to, once the scan stops at it.
\<close>

definition robot_answer :: "robot \<Rightarrow> module_id \<Rightarrow> error + easyconfig list option" where
  "robot_answer rb c =
     (case rb c of
        NoEasyconfig \<Rightarrow> Inr None
      | Unloadable path \<Rightarrow> Inl (LoadError path)
      | Easyconfig path processedSpecs \<Rightarrow>
          if c \<in> set (map module processedSpecs) then Inr (Some processedSpecs)
          else Inl (ModuleNotInEasyconfig path c))"

text \<open>
  The expansion pass in the words of the spec (section 4.2, step 2b, and the
  determinism note): select the first unprocessed spec with at least one candidate, ask
  the locator for its first candidate, and on not-found stop.
\<close>

definition spec_expansion_pass ::
  "robot \<Rightarrow> easyconfig list \<Rightarrow> error + easyconfig list option" where
  "spec_expansion_pass rb unprocessed =
     (case find (\<lambda>m. first_candidate (map module unprocessed) m \<noteq> None) unprocessed of
        None \<Rightarrow> Inr None
      | Some m \<Rightarrow>
          (case first_candidate (map module unprocessed) m of
             None \<Rightarrow> Inr None
           | Some c \<Rightarrow> robot_answer rb c))"

definition c4_robot :: robot where
  "c4_robot q = (if q = (''Y'', ''1.0'') then Easyconfig ''/robot/Y.eb'' [ex_ec ''Y'' []]
                 else NoEasyconfig)"

definition c4_unprocessed :: "easyconfig list" where
  "c4_unprocessed = [ex_ec ''A'' [''X''], ex_ec ''B'' [''Y'']]"

text \<open>
  Claim C4, as stated, against the code.  A depends on X, B depends on Y; the robot finds
  no easyconfig for X and one for Y.  The first unprocessed easyconfig with a candidate
  is A, its first candidate X is not found, and the pass of the spec stops there.  The
  code goes on to B, asks for Y, and adds what it finds; in the end only X is missing.
\<close>

theorem robot_pass_counterexample:
  "find (\<lambda>m. first_candidate (map module c4_unprocessed) m \<noteq> None) c4_unprocessed
     = Some (ex_ec ''A'' [''X'']) \<and>
   first_candidate (map module c4_unprocessed) (ex_ec ''A'' [''X'']) = Some (''X'', ''1.0'') \<and>
   c4_robot (''X'', ''1.0'') = NoEasyconfig \<and>
   spec_expansion_pass c4_robot c4_unprocessed = Inr None \<and>
   robot_pass (Some c4_robot) c4_unprocessed = Inr (Some [ex_ec ''Y'' []]) \<and>
   robot_pass (Some c4_robot) c4_unprocessed \<noteq> spec_expansion_pass c4_robot c4_unprocessed \<and>
   resolveDependencies c4_unprocessed (Some c4_robot) False []
     = ([ex_ec ''A'' [''X'']], Inl (DependenciesNotMet [(''X'', ''1.0'')]))"
  by code_simp

text \<open>
  Claim C4, amended.  The robot pass goes through the unprocessed easyconfigs in order.
  Of each it considers the first candidate only, and it stops at the first easyconfig
  whose first candidate the robot has an answer for other than not-found; that answer
  decides the pass.  An easyconfig whose first candidate is not found is passed over, and
  the pass ends without a result (which ends the outer loop) only when this holds for
  every unprocessed easyconfig that has a candidate.
\<close>

theorem robot_pass_first_found:
  "robot_pass (Some rb) unprocessed =
     (case find (\<lambda>m. case first_candidate (map module unprocessed) m of
                        None \<Rightarrow> False
                      | Some c \<Rightarrow> rb c \<noteq> NoEasyconfig) unprocessed of
        None \<Rightarrow> Inr None
      | Some m \<Rightarrow>
          (case first_candidate (map module unprocessed) m of
             None \<Rightarrow> Inr None
           | Some c \<Rightarrow> robot_answer rb c))"
proof -
  have "robot_scan rb bi un =
     (case find (\<lambda>m. case first_candidate bi m of
                        None \<Rightarrow> False
                      | Some c \<Rightarrow> rb c \<noteq> NoEasyconfig) un of
        None \<Rightarrow> Inr None
      | Some m \<Rightarrow>
          (case first_candidate bi m of
             None \<Rightarrow> Inr None
           | Some c \<Rightarrow> robot_answer rb c))" for bi un
    by (induction un)
       (auto simp: first_candidate_def robot_answer_def log_error_def
             split: list.splits lookup.splits)
  from this [of "map module unprocessed" unprocessed] show ?thesis
    by (cases "unprocessed = []") (simp_all add: robot_pass_def del: robot_scan.simps)
qed


section \<open>Unresolvable easyconfigs\<close>

text \<open>
  A set \<open>B\<close> of module ids is blocked in a state when no processed id is in \<open>B\<close>, every
  unprocessed easyconfig whose module is in \<open>B\<close> still depends on an id of \<open>B\<close>, and some
  unprocessed easyconfig depends on an id of \<open>B\<close>.
\<close>

definition blocked :: "module_id set \<Rightarrow> easyconfig list \<Rightarrow> module_id list \<Rightarrow> bool" where
  "blocked B un pr \<longleftrightarrow>
     set pr \<inter> B = {} \<and>
     (\<forall>m \<in> set un. module m \<in> B \<longrightarrow> set (dependencies m) \<inter> B \<noteq> {}) \<and>
     (\<exists>m \<in> set un. set (dependencies m) \<inter> B \<noteq> {})"

lemma scan_blocked:
  assumes "findResolvedModules_scan ms p os = (ms', p', os')"
    and "set p \<inter> B = {}"
    and "\<forall>m \<in> set ms. module m \<in> B \<longrightarrow> set (dependencies m) \<inter> B \<noteq> {}"
  shows "set p' \<inter> B = {} \<and>
    (\<forall>m \<in> set ms'. module m \<in> B \<longrightarrow> set (dependencies m) \<inter> B \<noteq> {}) \<and>
    ((\<exists>m \<in> set ms. set (dependencies m) \<inter> B \<noteq> {}) \<longrightarrow>
     (\<exists>m \<in> set ms'. set (dependencies m) \<inter> B \<noteq> {}))"
  using assms
proof (induction ms arbitrary: p os ms' p' os')
  case Nil
  then show ?case by simp
next
  case (Cons m ms)
  have m_blk: "module m \<in> B \<longrightarrow> set (dependencies m) \<inter> B \<noteq> {}"
    and ms_blk: "\<forall>m \<in> set ms. module m \<in> B \<longrightarrow> set (dependencies m) \<inter> B \<noteq> {}"
    using Cons.prems(3) by auto
  from Cons.prems(1) show ?case
  proof (cases rule: scan_Cons_cases)
    case (resolved ms1)
    have "set (dependencies m) \<subseteq> set p"
      using resolved(1) by (auto simp: filter_empty_conv)
    with Cons.prems(2) have none: "set (dependencies m) \<inter> B = {}" by auto
    with m_blk have "module m \<notin> B" by auto
    with Cons.prems(2) have "set (p @ [module m]) \<inter> B = {}" by auto
    from Cons.IH [OF resolved(3) this ms_blk] none resolved(2) \<open>module m \<notin> B\<close>
    show ?thesis by auto
  next
    case (pending ms1)
    have same: "set (filter (\<lambda>d. d \<notin> set p) (dependencies m)) \<inter> B = set (dependencies m) \<inter> B"
      using Cons.prems(2) by auto
    from Cons.IH [OF pending(3) Cons.prems(2) ms_blk] m_blk pending(2) same
    show ?thesis by auto
  qed
qed

lemma findResolvedModules_blocked:
  assumes "findResolvedModules un pr = (un', pr', new)" and "blocked B un pr"
  shows "blocked B un' pr'"
proof -
  obtain ms' where scan: "findResolvedModules_scan un pr [] = (ms', pr', new)"
    and un': "un' = filter (\<lambda>m. length (dependencies m) > 0) ms'"
    using assms(1) by (auto simp: findResolvedModules_def split: prod.splits)
  from assms(2) have p: "set pr \<inter> B = {}"
    and blk: "\<forall>m \<in> set un. module m \<in> B \<longrightarrow> set (dependencies m) \<inter> B \<noteq> {}"
    and ex: "\<exists>m \<in> set un. set (dependencies m) \<inter> B \<noteq> {}"
    unfolding blocked_def by blast+
  from scan_blocked [OF scan p blk] ex
  have "set pr' \<inter> B = {}"
    and "\<forall>m \<in> set ms'. module m \<in> B \<longrightarrow> set (dependencies m) \<inter> B \<noteq> {}"
    and "\<exists>m \<in> set ms'. set (dependencies m) \<inter> B \<noteq> {}"
    by blast+
  then show ?thesis
    unfolding blocked_def un' by fastforce
qed

lemma resolve_fixpoint_blocked:
  assumes "resolve_fixpoint un pr os l = (un', pr', os')" and "blocked B un pr"
  shows "blocked B un' pr'"
  using assms
proof (induction un pr os l rule: resolve_fixpoint.induct)
  case (1 un pr os l)
  show ?case
  proof (cases "int (length pr) > l")
    case True
    obtain un1 pr1 new where f: "findResolvedModules un pr = (un1, pr1, new)"
      by (metis prod_cases3)
    have rec: "resolve_fixpoint un1 pr1 (os @ new) (int (length pr)) = (un', pr', os')"
      using "1.prems"(1) True f by (simp add: resolve_fixpoint.simps [of un pr])
    from "1.IH" [OF True f [symmetric] refl rec findResolvedModules_blocked [OF f "1.prems"(2)]]
    show ?thesis .
  next
    case False
    then show ?thesis using "1.prems" by (simp add: resolve_fixpoint.simps [of un pr])
  qed
qed

lemma resolve_loop_blocked:
  assumes "resolve_loop rbo st = (st', r)"
    and "blocked B (st_unprocessed st) (st_processed st)"
    and robot_blk: "\<forall>s. robot_supplies rbo s \<longrightarrow> module s \<in> B
          \<longrightarrow> set (dependencies s) \<inter> B \<noteq> {}"
  shows "blocked B (st_unprocessed st') (st_processed st')"
  using assms(1,2)
proof (induction rule: resolve_loop_induct)
  case (cap st)
  then show ?case by simp
next
  case (err st un pr os e)
  then show ?case using resolve_fixpoint_blocked by auto
next
  case (finished st un pr os)
  then show ?case using resolve_fixpoint_blocked by auto
next
  case (more st un pr os ss st' r)
  from resolve_fixpoint_blocked [OF more(2) more.prems]
  have "blocked B un pr" .
  moreover have "\<forall>s \<in> set ss. module s \<in> B \<longrightarrow> set (dependencies s) \<inter> B \<noteq> {}"
    using robot_pass_Some [OF more(3)] robot_blk by blast
  ultimately have "blocked B (un @ ss) pr"
    unfolding blocked_def by (metis Un_iff set_append)
  with more.IH show ?case by simp
qed

lemma set_foldl_dict_set: "set (foldl dict_set ks ds) = set ks \<union> set ds"
  by (induction ds arbitrary: ks) (auto simp: dict_set_def)

lemma distinct_foldl_dict_set: "distinct ks \<Longrightarrow> distinct (foldl dict_set ks ds)"
  by (induction ds arbitrary: ks) (auto simp: dict_set_def)

lemma missingDependencies_keys:
  "set (missingDependencies un) = (\<Union>m \<in> set un. set (dependencies m))"
  "distinct (missingDependencies un)"
proof -
  have "set (foldl (\<lambda>ks m. foldl dict_set ks (dependencies m)) ks un)
      = set ks \<union> (\<Union>m \<in> set un. set (dependencies m))" for ks
    by (induction un arbitrary: ks) (auto simp: set_foldl_dict_set)
  then show "set (missingDependencies un) = (\<Union>m \<in> set un. set (dependencies m))"
    by (simp add: missingDependencies_def)
  have "distinct ks \<Longrightarrow> distinct (foldl (\<lambda>ks m. foldl dict_set ks (dependencies m)) ks un)" for ks
    by (induction un arbitrary: ks) (auto simp: distinct_foldl_dict_set)
  then show "distinct (missingDependencies un)"
    by (simp add: missingDependencies_def)
qed

lemma resolve_loop_no_robot:
  assumes "resolve_loop None st = (st', r)" and "st_loopcnt st < maxloopcnt"
  shows "r = Inr ()"
  using assms
  by (auto simp: resolve_loop.simps [of None st] robot_pass_def Let_def split: prod.splits)


lemma robot_scan_error_source:
  "robot_scan rb bi un = Inl e \<Longrightarrow>
     (case e of
        LoadError path \<Rightarrow> \<exists>c. rb c = Unloadable path
      | ModuleNotInEasyconfig path c \<Rightarrow> \<exists>ss. rb c = Easyconfig path ss \<and> c \<notin> module ` set ss
      | _ \<Rightarrow> False)"
proof (induction un)
  case Nil
  then show ?case by simp
next
  case (Cons m ms)
  then show ?case
    by (fastforce simp: log_error_def split: list.splits lookup.splits if_splits error.splits)
qed

lemma resolve_loop_error_source:
  assumes "resolve_loop rbo st = (st', Inl e)"
  shows "case e of
        LoadError path \<Rightarrow> \<exists>rb c. rbo = Some rb \<and> rb c = Unloadable path
      | ModuleNotInEasyconfig path c \<Rightarrow>
          \<exists>rb ss. rbo = Some rb \<and> rb c = Easyconfig path ss \<and> c \<notin> module ` set ss
      | MaxLoopReached n \<Rightarrow> n = maxloopcnt
      | DependenciesNotMet ks \<Rightarrow> False"
proof -
  have "r = Inl e \<longrightarrow> (case e of
        LoadError path \<Rightarrow> \<exists>rb c. rbo = Some rb \<and> rb c = Unloadable path
      | ModuleNotInEasyconfig path c \<Rightarrow>
          \<exists>rb ss. rbo = Some rb \<and> rb c = Easyconfig path ss \<and> c \<notin> module ` set ss
      | MaxLoopReached n \<Rightarrow> n = maxloopcnt
      | DependenciesNotMet ks \<Rightarrow> False)" if "resolve_loop rbo st = (st', r)" for r
    using that
  proof (induction rule: resolve_loop_induct)
    case (cap st)
    then show ?case by (auto simp: log_error_def)
  next
    case (err st un pr os e')
    from err(3) obtain rb where rb: "rbo = Some rb"
      and "robot_scan rb (map module un) un = Inl e'"
      by (auto simp: robot_pass_def split: option.splits if_splits)
    from robot_scan_error_source [OF this(2)] rb show ?case
      by (auto split: error.splits)
  next
    case (finished st un pr os)
    then show ?case by simp
  next
    case (more st un pr os ss st' r)
    then show ?case by simp
  qed
  with assms show ?thesis by blast
qed

definition ex_cycle :: "easyconfig list" where
  "ex_cycle = [ex_ec ''A'' [''B''], ex_ec ''B'' [''A''], ex_ec ''C'' [''X'', ''A''],
               ex_ec ''E'' [''X'']]"

definition c3_input :: "easyconfig list" where
  "c3_input = [ex_ec ''A'' [''B''], ex_ec ''B'' [''A''], ex_ec ''C'' [''X'']]"

definition c3_robot :: robot where
  "c3_robot q = (if q = (''X'', ''1.0'') then Unloadable ''/robot/X.eb'' else NoEasyconfig)"

text \<open>
  Claim C3, as stated, against the code.  A and B depend on each other, and C depends on
  X, which is neither given nor available.  The robot finds a file for X that
  \<^verbatim>\<open>processEasyconfig\<close> cannot load.  The run ends with that failure; the ids that are
  still missing (B, A and X) are not reported.
\<close>

theorem resolveDependencies_unresolvable_counterexample:
  "resolveDependencies c3_input (Some c3_robot) False []
     = (c3_input, Inl (LoadError ''/robot/X.eb'')) \<and>
   missingDependencies c3_input = [(''B'', ''1.0''), (''A'', ''1.0''), (''X'', ''1.0'')]"
  by code_simp

text \<open>
  Claim C3, amended.  Let \<open>B\<close> be a set of module ids that nothing can provide: none of
  them is an available module that is not being installed, every easyconfig of such a
  module (given or supplied by the robot) depends itself on an id of \<open>B\<close>, and some given
  easyconfig depends on an id of \<open>B\<close>.  A dependency cycle is such a set, and so is a
  dependency that is neither available nor given when there is no robot.  Then
  \<^verbatim>\<open>resolveDependencies\<close> returns with an error and easyconfigs are left unprocessed.  The
  error is the one about unmet dependencies, and the ids it reports are, without
  repetition, all the remaining dependencies of all the unprocessed easyconfigs, unless
  the robot ended the run before: with a file that could not be loaded, with a file that
  does not hold the module it was asked for, or by adding easyconfigs round after round
  up to the iteration cap.  Without a robot none of these can happen.
\<close>

theorem resolveDependencies_unresolvable:
  assumes outside: "\<forall>d \<in> B. force \<or> d \<notin> set modules_available \<or> d \<in> module ` set easyconfigs"
    and given: "\<forall>s \<in> set easyconfigs. module s \<in> B \<longrightarrow> set (dependencies s) \<inter> B \<noteq> {}"
    and found: "\<forall>s. robot_supplies rbo s \<longrightarrow> module s \<in> B \<longrightarrow> set (dependencies s) \<inter> B \<noteq> {}"
    and needed: "\<exists>s \<in> set easyconfigs. set (dependencies s) \<inter> B \<noteq> {}"
  shows "\<exists>un' e. resolveDependencies easyconfigs rbo force modules_available = (un', Inl e) \<and>
      un' \<noteq> [] \<and>
      (case e of
         DependenciesNotMet ks \<Rightarrow>
           set ks = (\<Union>m \<in> set un'. set (dependencies m)) \<and> distinct ks
       | LoadError path \<Rightarrow> \<exists>rb c. rbo = Some rb \<and> rb c = Unloadable path
       | ModuleNotInEasyconfig path c \<Rightarrow>
           \<exists>rb ss. rbo = Some rb \<and> rb c = Easyconfig path ss \<and> c \<notin> module ` set ss
       | MaxLoopReached n \<Rightarrow> n = maxloopcnt \<and> rbo \<noteq> None)"
proof -
  let ?P0 = "filter (\<lambda>m. m \<notin> set (map module easyconfigs))
               (if force then [] else modules_available)"
  let ?st0 = "\<lparr>st_loopcnt = 0, st_unprocessed = easyconfigs,
                st_processed = ?P0, st_orderedSpecs = []\<rparr>"
  obtain st r where run: "resolve_loop rbo ?st0 = (st, r)"
    by (metis surj_pair)
  have "set ?P0 \<inter> B = {}" using outside by auto
  with given needed have "blocked B (st_unprocessed ?st0) (st_processed ?st0)"
    by (simp add: blocked_def)
  from resolve_loop_blocked [OF run this found]
  have left: "st_unprocessed st \<noteq> []"
    by (auto simp: blocked_def)
  show ?thesis
  proof (cases r)
    case (Inl e)
    with run have res: "resolveDependencies easyconfigs rbo force modules_available
        = (st_unprocessed st, Inl e)"
      by (simp add: resolveDependencies_def)
    have "rbo \<noteq> None"
    proof
      assume "rbo = None"
      with run have "resolve_loop None ?st0 = (st, r)" by simp
      from resolve_loop_no_robot [OF this] Inl show False
        by (simp add: maxloopcnt_def)
    qed
    moreover from resolve_loop_error_source run Inl
    have "case e of
        LoadError path \<Rightarrow> \<exists>rb c. rbo = Some rb \<and> rb c = Unloadable path
      | ModuleNotInEasyconfig path c \<Rightarrow>
          \<exists>rb ss. rbo = Some rb \<and> rb c = Easyconfig path ss \<and> c \<notin> module ` set ss
      | MaxLoopReached n \<Rightarrow> n = maxloopcnt
      | DependenciesNotMet ks \<Rightarrow> False" by blast
    ultimately have "(case e of
         DependenciesNotMet ks \<Rightarrow>
           set ks = (\<Union>m \<in> set (st_unprocessed st). set (dependencies m)) \<and> distinct ks
       | LoadError path \<Rightarrow> \<exists>rb c. rbo = Some rb \<and> rb c = Unloadable path
       | ModuleNotInEasyconfig path c \<Rightarrow>
           \<exists>rb ss. rbo = Some rb \<and> rb c = Easyconfig path ss \<and> c \<notin> module ` set ss
       | MaxLoopReached n \<Rightarrow> n = maxloopcnt \<and> rbo \<noteq> None)"
      by (auto split: error.splits)
    with res left show ?thesis by blast
  next
    case (Inr u)
    with run left have res: "resolveDependencies easyconfigs rbo force modules_available
        = (st_unprocessed st, Inl (DependenciesNotMet (missingDependencies (st_unprocessed st))))"
      by (simp add: resolveDependencies_def log_error_def)
    with left missingDependencies_keys [of "st_unprocessed st"] show ?thesis by simp
  qed
qed

theorem resolveDependencies_unresolvable_witness:
  "resolveDependencies ex_cycle None False [(''X'', ''1.0'')]
     = ([(ex_ec ''A'' [''B'']), (ex_ec ''B'' [''A'']),
         (ex_ec ''C'' [''X'', ''A''])\<lparr>dependencies := [(''A'', ''1.0'')]\<rparr>],
        Inl (DependenciesNotMet [(''B'', ''1.0''), (''A'', ''1.0'')]))"
proof -
  let ?B = "{(''A'', ''1.0''), (''B'', ''1.0'')}"
  have h1: "\<forall>d \<in> ?B. False \<or> d \<notin> set [(''X'', ''1.0'')] \<or> d \<in> module ` set ex_cycle"
    by simp
  have h2: "\<forall>s \<in> set ex_cycle. module s \<in> ?B \<longrightarrow> set (dependencies s) \<inter> ?B \<noteq> {}"
    by (simp add: ex_cycle_def ex_ec_def)
  have h3: "\<forall>s. robot_supplies None s \<longrightarrow> module s \<in> ?B \<longrightarrow> set (dependencies s) \<inter> ?B \<noteq> {}"
    by (simp add: robot_supplies_def)
  have h4: "\<exists>s \<in> set ex_cycle. set (dependencies s) \<inter> ?B \<noteq> {}"
    by (simp add: ex_cycle_def ex_ec_def)
  from resolveDependencies_unresolvable [OF h1 h2 h3 h4]
  obtain un' e where "resolveDependencies ex_cycle None False [(''X'', ''1.0'')] = (un', Inl e)"
    by blast
  moreover have "resolveDependencies ex_cycle None False [(''X'', ''1.0'')]
     = ([(ex_ec ''A'' [''B'']), (ex_ec ''B'' [''A'']),
         (ex_ec ''C'' [''X'', ''A''])\<lparr>dependencies := [(''A'', ''1.0'')]\<rparr>],
        Inl (DependenciesNotMet [(''B'', ''1.0''), (''A'', ''1.0'')]))"
    by code_simp
  ultimately show ?thesis by simp
qed

section \<open>The questions put to the robot\<close>

text \<open>
  The module ids that one robot pass asks \<^verbatim>\<open>robotFindEasyconfig\<close> for, in order: the first
  candidate of each module up to and including the first one that is found.
\<close>

fun robot_scan_queries :: "robot \<Rightarrow> module_id list \<Rightarrow> easyconfig list \<Rightarrow> module_id list" where
  "robot_scan_queries rb beingInstalled [] = []"
| "robot_scan_queries rb beingInstalled (m # ms) =
     (case filter (\<lambda>d. d \<notin> set beingInstalled) (dependencies m) of
        [] \<Rightarrow> robot_scan_queries rb beingInstalled ms
      | c # _ \<Rightarrow>
          (case rb c of
             NoEasyconfig \<Rightarrow> c # robot_scan_queries rb beingInstalled ms
           | Unloadable path \<Rightarrow> [c]
           | Easyconfig path processedSpecs \<Rightarrow> [c]))"

definition robot_pass_queries :: "robot option \<Rightarrow> easyconfig list \<Rightarrow> module_id list" where
  "robot_pass_queries rbo unprocessed =
     (case rbo of
        None \<Rightarrow> []
      | Some rb \<Rightarrow>
          if length unprocessed > 0
          then robot_scan_queries rb (map module unprocessed) unprocessed
          else [])"

text \<open>All the questions of one run of the outer loop, pass after pass.\<close>

function resolve_loop_queries :: "robot option \<Rightarrow> resolution \<Rightarrow> module_id list" where
  "resolve_loop_queries rbo st =
     (let loopcnt = st_loopcnt st + 1 in
      if loopcnt > maxloopcnt then []
      else
        (case resolve_fixpoint (st_unprocessed st) (st_processed st) (st_orderedSpecs st) (- 1) of
           (unprocessed, processed, orderedSpecs) \<Rightarrow>
             robot_pass_queries rbo unprocessed @
             (case robot_pass rbo unprocessed of
                Inr (Some processedSpecs) \<Rightarrow>
                  resolve_loop_queries rbo
                    \<lparr>st_loopcnt = loopcnt, st_unprocessed = unprocessed @ processedSpecs,
                     st_processed = processed, st_orderedSpecs = orderedSpecs\<rparr>
              | _ \<Rightarrow> [])))"
  by pat_completeness auto
termination
  by (relation "measure (\<lambda>(rbo, st). Suc maxloopcnt - st_loopcnt st)") auto

declare resolve_loop_queries.simps [simp del]

definition resolveDependencies_queries ::
  "easyconfig list \<Rightarrow> robot option \<Rightarrow> bool \<Rightarrow> module_id list \<Rightarrow> module_id list" where
  "resolveDependencies_queries unprocessed rbo force modules_available =
     (let availableModules = (if force then [] else modules_available);
          beingInstalled = map module unprocessed;
          processed = filter (\<lambda>m. m \<notin> set beingInstalled) availableModules
      in resolve_loop_queries rbo \<lparr>st_loopcnt = 0, st_unprocessed = unprocessed,
                                     st_processed = processed, st_orderedSpecs = []\<rparr>)"

lemma robot_scan_agree:
  "\<forall>q \<in> set (robot_scan_queries rb bi un). rb' q = rb q \<Longrightarrow>
     robot_scan rb' bi un = robot_scan rb bi un"
proof (induction un)
  case Nil
  then show ?case by simp
next
  case (Cons m ms)
  then show ?case
    by (auto split: list.splits lookup.splits)
qed

lemma robot_pass_agree:
  "\<forall>q \<in> set (robot_pass_queries (Some rb) un). rb' q = rb q \<Longrightarrow>
     robot_pass (Some rb') un = robot_pass (Some rb) un"
  using robot_scan_agree [of rb "map module un" un rb']
  by (cases "un = []") (simp_all add: robot_pass_def robot_pass_queries_def)

lemma resolve_loop_agree:
  assumes "resolve_loop (Some rb) st = (st', r)"
    and "\<forall>q \<in> set (resolve_loop_queries (Some rb) st). rb' q = rb q"
  shows "resolve_loop (Some rb') st = (st', r)"
  using assms
proof (induction rule: resolve_loop_induct)
  case (cap st)
  then show ?case
    by (simp add: resolve_loop.simps [of _ st] log_error_def)
next
  case (err st un pr os e)
  from err(1,2,4) have "\<forall>q \<in> set (robot_pass_queries (Some rb) un). rb' q = rb q"
    by (simp add: resolve_loop_queries.simps [of _ st])
  from robot_pass_agree [OF this] err(1,2,3) show ?case
    by (simp add: resolve_loop.simps [of _ st])
next
  case (finished st un pr os)
  from finished(1,2,4) have "\<forall>q \<in> set (robot_pass_queries (Some rb) un). rb' q = rb q"
    by (simp add: resolve_loop_queries.simps [of _ st])
  from robot_pass_agree [OF this] finished(1,2,3) show ?case
    by (simp add: resolve_loop.simps [of _ st])
next
  case (more st un pr os ss st' r)
  let ?next = "\<lparr>st_loopcnt = st_loopcnt st + 1, st_unprocessed = un @ ss,
               st_processed = pr, st_orderedSpecs = os\<rparr>"
  from more(1,2,3) more.prems
  have q1: "\<forall>q \<in> set (robot_pass_queries (Some rb) un). rb' q = rb q"
    and q2: "\<forall>q \<in> set (resolve_loop_queries (Some rb) ?next). rb' q = rb q"
    by (simp_all add: resolve_loop_queries.simps [of _ st])
  from more.IH [OF q2] robot_pass_agree [OF q1] more(1,2,3) show ?case
    by (simp add: resolve_loop.simps [of _ st])
qed


text \<open>
  A second robot for the example of claim C1: it answers the question about A as
  \<open>ex_robot\<close> does, and differs from it on a module that is never asked for.
\<close>

definition ex_robot2 :: robot where
  "ex_robot2 q = (if q = (''Z'', ''9'') then Unloadable ''/robot/Z.eb'' else ex_robot q)"

text \<open>
  Claim C6.  The result of \<^verbatim>\<open>resolveDependencies\<close> is a function of the list of
  easyconfigs (in its order), the available modules and the robot's answers.  Of the
  robot, only the answers to the questions actually asked matter: a second run on the
  same input, whose robot gives the same answer to each question of the first run,
  returns the same result, the same easyconfigs in the same order.
\<close>

theorem resolveDependencies_deterministic:
  assumes "\<forall>q \<in> set (resolveDependencies_queries easyconfigs (Some rb) force modules_available).
             rb' q = rb q"
  shows "resolveDependencies easyconfigs (Some rb') force modules_available
       = resolveDependencies easyconfigs (Some rb) force modules_available"
proof -
  let ?st0 = "\<lparr>st_loopcnt = 0, st_unprocessed = easyconfigs,
                st_processed = filter (\<lambda>m. m \<notin> set (map module easyconfigs))
                                 (if force then [] else modules_available),
                st_orderedSpecs = []\<rparr>"
  obtain st r where run: "resolve_loop (Some rb) ?st0 = (st, r)"
    by (metis surj_pair)
  from assms have "\<forall>q \<in> set (resolve_loop_queries (Some rb) ?st0). rb' q = rb q"
    by (simp add: resolveDependencies_queries_def)
  from resolve_loop_agree [OF run this] run show ?thesis
    by (simp add: resolveDependencies_def)
qed

theorem resolveDependencies_deterministic_witness:
  "resolveDependencies_queries ex_input (Some ex_robot) False ex_available = [(''A'', ''1.0'')] \<and>
   ex_robot2 (''A'', ''1.0'') = ex_robot (''A'', ''1.0'') \<and>
   ex_robot2 (''Z'', ''9'') \<noteq> ex_robot (''Z'', ''9'') \<and>
   resolveDependencies ex_input (Some ex_robot2) False ex_available
     = resolveDependencies ex_input (Some ex_robot) False ex_available \<and>
   resolveDependencies ex_input (Some ex_robot2) False ex_available = ([], Inr ex_output)"
proof -
  have q: "resolveDependencies_queries ex_input (Some ex_robot) False ex_available
      = [(''A'', ''1.0'')]"
    by code_simp
  have same: "ex_robot2 (''A'', ''1.0'') = ex_robot (''A'', ''1.0'')"
    and differ: "ex_robot2 (''Z'', ''9'') \<noteq> ex_robot (''Z'', ''9'')"
    by (simp_all add: ex_robot2_def ex_robot_def)
  from q same
  have "\<forall>q \<in> set (resolveDependencies_queries ex_input (Some ex_robot) False ex_available).
          ex_robot2 q = ex_robot q"
    by simp
  from resolveDependencies_deterministic [OF this]
  have eq: "resolveDependencies ex_input (Some ex_robot2) False ex_available
     = resolveDependencies ex_input (Some ex_robot) False ex_available" .
  have "resolveDependencies ex_input (Some ex_robot) False ex_available = ([], Inr ex_output)"
    by code_simp
  with eq q same differ show ?thesis by simp
qed

section \<open>The batch executor \<^verbatim>\<open>build_easyconfigs\<close>\<close>

text \<open>
  The methods that \<^verbatim>\<open>build_easyconfigs\<close> calls on an instance, in the order of the calls,
  and the step name each call is made under (\<^verbatim>\<open>checksum_step\<close> and \<^verbatim>\<open>extract_step\<close> share
  the name \<^verbatim>\<open>unpacking\<close>).
\<close>

datatype stage =
    Fetch | CheckReadiness | GenInstalldir | MakeBuilddir | Checksum | Extract | Patch
  | Prepare | Configure | Build | Test | StageInstall | MakeInstalldir | Install
  | Extensions | Package | PostInstall | SanityCheck | Cleanup | MakeModule | TestCases

fun step_name :: "stage \<Rightarrow> string" where
  "step_name Fetch = ''fetching files''"
| "step_name CheckReadiness = ''check readiness''"
| "step_name GenInstalldir = ''generate installdir name''"
| "step_name MakeBuilddir = ''make builddir''"
| "step_name Checksum = ''unpacking''"
| "step_name Extract = ''unpacking''"
| "step_name Patch = ''patching''"
| "step_name Prepare = ''prepare''"
| "step_name Configure = ''configure''"
| "step_name Build = ''make''"
| "step_name Test = ''test''"
| "step_name StageInstall = ''stage install''"
| "step_name MakeInstalldir = ''create installdir''"
| "step_name Install = ''make install''"
| "step_name Extensions = ''extensions''"
| "step_name Package = ''package''"
| "step_name PostInstall = ''postproc''"
| "step_name SanityCheck = ''sanity check''"
| "step_name Cleanup = ''cleanup''"
| "step_name MakeModule = ''make module''"
| "step_name TestCases = ''test cases''"

definition stage_methods :: "stage list" where
  "stage_methods =
     [Fetch, CheckReadiness, GenInstalldir, MakeBuilddir, Checksum, Extract, Patch, Prepare,
      Configure, Build, Test, StageInstall, MakeInstalldir, Install, Extensions, Package,
      PostInstall, SanityCheck, Cleanup, MakeModule]"

text \<open>
  What the executor reads of an instance: its name and install version (for the log
  path), whether \<^verbatim>\<open>app.cfg['tests']\<close> is set, and its own log file.
\<close>

record app_instance =
  app_name :: string
  app_installversion :: string
  app_tests :: bool
  app_logfile :: string

text \<open>
  The process: \<^verbatim>\<open>os.environ\<close>, the working directory, and everything else the stages
  work on (file system, the instances' own state).
\<close>

type_synonym env = "string \<rightharpoonup> string"

record 'x process =
  environ :: env
  cwd :: string
  rest :: 'x

text \<open>
  The keys of the dictionary \<^verbatim>\<open>build_stopped\<close> and the first component of a failure record:
  the path of an easyconfig whose initialization failed, or an instance (identified by
  its position in \<^verbatim>\<open>apps\<close>).  The last component of a failure record is the \<^verbatim>\<open>logfile\<close>
  argument of \<^verbatim>\<open>perform_step\<close>: the session logger \<^verbatim>\<open>log\<close> for the initialization, the path
  \<^verbatim>\<open>applog\<close> for the stages.
\<close>

datatype key = SpecPath string | Instance nat

datatype logref = SessionLog | LogFile string

type_synonym failure = "key \<times> string \<times> string \<times> logref"

text \<open>
  The state of a batch: \<^verbatim>\<open>build_stopped\<close>, the list \<^verbatim>\<open>test_results\<close>, the lines
  \<^verbatim>\<open>Running ... step\<close> that \<^verbatim>\<open>perform_step\<close> logs before it runs a step (whose step, and
  the step name), and the process.
\<close>

record 'x batch =
  build_stopped :: "key \<rightharpoonup> string"
  test_results :: "failure list"
  running :: "(key \<times> string) list"
  world :: "'x process"

text \<open>
  The collaborators of the executor, which are not part of the sources:
  \<^verbatim>\<open>parbuild.get_instance\<close> (an error text when it raises), the stage methods of the
  instances (an error text when one raises), closing and moving the instance log
  (\<open>False\<close> when \<^verbatim>\<open>shutil.move\<close> raises \<^verbatim>\<open>IOError\<close>), and whether the environment can be
  reset.
\<close>

record 'x collaborators =
  get_instance :: "easyconfig \<Rightarrow> 'x process \<Rightarrow> (string + app_instance) \<times> 'x process"
  run_method :: "stage \<Rightarrow> nat \<Rightarrow> 'x process \<Rightarrow> string option \<times> 'x process"
  move_log :: "nat \<Rightarrow> string \<Rightarrow> 'x process \<Rightarrow> bool \<times> 'x process"
  can_restore :: "'x process \<Rightarrow> bool"

text \<open>How a run ends before its time: an uncaught exception, or \<^verbatim>\<open>sys.exit\<close>.\<close>

datatype abort = TypeError string | KeyError string | SystemExit nat

text \<open>
  Modelled from the spec: \<^verbatim>\<open>modifyEnv(os.environ, baseline)\<close> of
  \<^verbatim>\<open>easybuild.tools.filetools\<close> is not part of the sources.  By the spec (section 4.4) it
  restores the process environment to the baseline snapshot; when the environment
  cannot be reset (section 7, \<open>EnvironmentRestoreError\<close>) it reports so in its result,
  which \<^verbatim>\<open>build_and_install_software\<close> tests and \<^verbatim>\<open>build_easyconfigs\<close> ignores.
\<close>

definition modifyEnv :: "('x process \<Rightarrow> bool) \<Rightarrow> 'x process \<Rightarrow> env \<Rightarrow> bool \<times> 'x process" where
  "modifyEnv restorable w baseline =
     (if restorable w then (True, w\<lparr>environ := baseline\<rparr>) else (False, w))"

text \<open>
  \<^verbatim>\<open>perform_step(step, obj, method, logfile)\<close> for an instance \<open>a\<close>.  The guard
  \<^verbatim>\<open>(type(obj) == dict and ...) or obj not in build_stopped\<close> is its second disjunct here.
  Whatever the method raises is caught: the failure is recorded and the instance is
  entered in \<^verbatim>\<open>build_stopped\<close>.
\<close>

definition perform_step ::
  "'x collaborators \<Rightarrow> stage \<Rightarrow> nat \<Rightarrow> logref \<Rightarrow> 'x batch \<Rightarrow> 'x batch" where
  "perform_step coll m a logfile st =
     (if build_stopped st (Instance a) = None
      then (let st1 = st\<lparr>running := running st @ [(Instance a, step_name m)]\<rparr> in
            case run_method coll m a (world st1) of
              (None, w) \<Rightarrow> st1\<lparr>world := w\<rparr>
            | (Some fullerr, w) \<Rightarrow>
                st1\<lparr>world := w,
                    test_results := test_results st1 @ [(Instance a, step_name m, fullerr, logfile)],
                    build_stopped := (build_stopped st1)(Instance a \<mapsto> step_name m)\<rparr>)
      else st)"

text \<open>
  \<^verbatim>\<open>perform_step('initialization', ec, None, log)\<close> for an easyconfig dictionary.  When the
  path of the easyconfig is not in \<^verbatim>\<open>build_stopped\<close> the guard holds by its first disjunct.
  When it is, Python goes on to the second disjunct, \<^verbatim>\<open>obj not in build_stopped\<close> with a
  dictionary for \<^verbatim>\<open>obj\<close>: a dictionary cannot be hashed, the test raises \<^verbatim>\<open>TypeError\<close>, and
  since the guard is outside the \<^verbatim>\<open>try\<close> the exception leaves \<^verbatim>\<open>build_easyconfigs\<close>.  On a
  failure the record and the key are the path \<^verbatim>\<open>obj['spec']\<close>, and the result is \<^verbatim>\<open>None\<close>.
\<close>

definition perform_initialization ::
  "'x collaborators \<Rightarrow> easyconfig \<Rightarrow> 'x batch \<Rightarrow> abort + (app_instance option \<times> 'x batch)" where
  "perform_initialization coll ec st =
     (if build_stopped st (SpecPath (spec ec)) = None
      then (let st1 = st\<lparr>running := running st @ [(SpecPath (spec ec), ''initialization'')]\<rparr> in
            case get_instance coll ec (world st1) of
              (Inr app, w) \<Rightarrow> Inr (Some app, st1\<lparr>world := w\<rparr>)
            | (Inl fullerr, w) \<Rightarrow>
                Inr (None,
                  st1\<lparr>world := w,
                      test_results := test_results st1 @
                        [(SpecPath (spec ec), ''initialization'', fullerr, SessionLog)],
                      build_stopped := (build_stopped st1)(SpecPath (spec ec) \<mapsto> ''initialization'')\<rparr>))
      else Inl (TypeError ''unhashable type: dict''))"

text \<open>The first loop: \<^verbatim>\<open>apps\<close> gets one entry per easyconfig, \<^verbatim>\<open>None\<close> where it failed.\<close>

fun initialize_all ::
  "'x collaborators \<Rightarrow> easyconfig list \<Rightarrow> 'x batch \<Rightarrow> abort + (app_instance option list \<times> 'x batch)" where
  "initialize_all coll [] st = Inr ([], st)"
| "initialize_all coll (ec # ecs) st =
     (case perform_initialization coll ec st of
        Inl e \<Rightarrow> Inl e
      | Inr (inst, st') \<Rightarrow>
          (case initialize_all coll ecs st' of
             Inl e \<Rightarrow> Inl e
           | Inr (apps, st'') \<Rightarrow> Inr (inst # apps, st'')))"

text \<open>\<^verbatim>\<open>os.path.join\<close> of two components.\<close>

definition path_join :: "string \<Rightarrow> string \<Rightarrow> string" where
  "path_join a b =
     (if b \<noteq> [] \<and> hd b = CHR ''/'' then b
      else if a = [] \<or> last a = CHR ''/'' then a @ b
      else a @ ''/'' @ b)"

definition applog_path :: "string \<Rightarrow> app_instance \<Rightarrow> string" where
  "applog_path output_dir app =
     path_join output_dir (app_name app @ ''-'' @ app_installversion app @ ''.log'')"

text \<open>The stages of one instance: the twenty fixed ones, then the test cases if enabled.\<close>

definition stages_of :: "bool \<Rightarrow> app_instance \<Rightarrow> stage list" where
  "stages_of skip_test_cases app =
     stage_methods @ (if \<not> skip_test_cases \<and> app_tests app then [TestCases] else [])"

text \<open>
  The body of the second loop for an instance \<open>a\<close> (\<^verbatim>\<open>if app:\<close>): back to the base
  directory and the base environment, the stages, the instance log closed and moved
  (\<^verbatim>\<open>error(...)\<close>, that is \<^verbatim>\<open>sys.exit(1)\<close>, when that fails), and the instance appended to
  \<^verbatim>\<open>succes\<close> when it is not in \<^verbatim>\<open>build_stopped\<close>.
\<close>

definition build_instance ::
  "'x collaborators \<Rightarrow> bool \<Rightarrow> string \<Rightarrow> string \<Rightarrow> env \<Rightarrow> nat \<Rightarrow> app_instance
    \<Rightarrow> 'x batch \<times> nat list \<Rightarrow> abort + ('x batch \<times> nat list)" where
  "build_instance coll skip_test_cases output_dir base_dir base_env a app acc =
     (case acc of (st, succes) \<Rightarrow>
        (let applog = applog_path output_dir app;
             w1 = (world st)\<lparr>cwd := base_dir\<rparr>;
             w2 = snd (modifyEnv (can_restore coll) w1 base_env);
             st1 = foldl (\<lambda>s m. perform_step coll m a (LogFile applog) s)
                     (st\<lparr>world := w2\<rparr>) (stages_of skip_test_cases app)
         in case move_log coll a applog (world st1) of
              (False, w3) \<Rightarrow> Inl (SystemExit 1)
            | (True, w3) \<Rightarrow>
                Inr (st1\<lparr>world := w3\<rparr>,
                     if build_stopped st1 (Instance a) = None then succes @ [a] else succes)))"

fun build_apps ::
  "'x collaborators \<Rightarrow> bool \<Rightarrow> string \<Rightarrow> string \<Rightarrow> env \<Rightarrow> (nat \<times> app_instance option) list
    \<Rightarrow> 'x batch \<times> nat list \<Rightarrow> abort + ('x batch \<times> nat list)" where
  "build_apps coll skip_test_cases output_dir base_dir base_env [] acc = Inr acc"
| "build_apps coll skip_test_cases output_dir base_dir base_env ((a, None) # apps) acc =
     build_apps coll skip_test_cases output_dir base_dir base_env apps acc"
| "build_apps coll skip_test_cases output_dir base_dir base_env ((a, Some app) # apps) acc =
     (case build_instance coll skip_test_cases output_dir base_dir base_env a app acc of
        Inl e \<Rightarrow> Inl e
      | Inr acc' \<Rightarrow> build_apps coll skip_test_cases output_dir base_dir base_env apps acc')"

text \<open>
  \<^verbatim>\<open>build_easyconfigs\<close> up to the report: all instances are initialized, then the base
  directory and the base environment are taken, then the instances are built in turn.
  The result is \<^verbatim>\<open>apps\<close>, the final state and \<^verbatim>\<open>succes\<close>.
\<close>

definition build_easyconfigs ::
  "'x collaborators \<Rightarrow> easyconfig list \<Rightarrow> string \<Rightarrow> failure list \<Rightarrow> bool \<Rightarrow> 'x process
    \<Rightarrow> abort + (app_instance option list \<times> 'x batch \<times> nat list)" where
  "build_easyconfigs coll easyconfigs output_dir results skip_test_cases w =
     (case initialize_all coll easyconfigs
             \<lparr>build_stopped = Map.empty, test_results = results, running = [], world = w\<rparr> of
        Inl e \<Rightarrow> Inl e
      | Inr (apps, st) \<Rightarrow>
          (let base_dir = cwd (world st); base_env = environ (world st) in
           case build_apps coll skip_test_cases output_dir base_dir base_env
                  (zip [0..<length apps] apps) (st, []) of
             Inl e \<Rightarrow> Inl e
           | Inr (st', succes) \<Rightarrow> Inr (apps, st', succes)))"


section \<open>Failure isolation in the batch executor\<close>
























definition no_instance_coll :: "unit collaborators" where
  "no_instance_coll =
     \<lparr>get_instance = (\<lambda>ec w. (Inl ''no easyblock'', w)),
      run_method = (\<lambda>m a w. (None, w)),
      move_log = (\<lambda>a l w. (True, w)),
      can_restore = (\<lambda>w. True)\<rparr>"


definition batch_world :: "unit process" where
  "batch_world = \<lparr>environ = Map.empty, cwd = ''/home/user'', rest = ()\<rparr>"




text \<open>
  The guard of \<^verbatim>\<open>perform_step\<close> on a second easyconfig with the path of one whose
  initialization has failed: the exception leaves \<^verbatim>\<open>build_easyconfigs\<close>.
\<close>

lemma build_easyconfigs_same_path_twice:
  "(case build_easyconfigs no_instance_coll [ex_ec ''A'' [], ex_ec ''A'' [], ex_ec ''B'' []]
           ''/out'' [] True batch_world of
      Inl e \<Rightarrow> e = TypeError ''unhashable type: dict''
    | Inr r \<Rightarrow> False)"
  by (simp add: no_instance_coll_def build_easyconfigs_def perform_initialization_def ex_ec_def)








section \<open>The environment between builds\<close>




















section \<open>The block splitter \<^verbatim>\<open>retrieveBlocksInSpec\<close>\<close>

text \<open>
  The character classes of Python's \<^verbatim>\<open>re\<close> on byte strings: \<^verbatim>\<open>\s\<close> is space, tab, newline,
  vertical tab, form feed and carriage return; \<^verbatim>\<open>\w\<close> is a letter, a digit or the
  underscore.  A block name is made of \<^verbatim>\<open>[\w.-]\<close>.
\<close>

definition nl :: char where
  "nl = CHR 0x0A"

definition is_space :: "char \<Rightarrow> bool" where
  "is_space c \<longleftrightarrow> c \<in> set [CHR '' '', CHR 0x09, CHR 0x0A, CHR 0x0B, CHR 0x0C, CHR 0x0D]"

definition is_word :: "char \<Rightarrow> bool" where
  "is_word c \<longleftrightarrow>
     (let n = (of_char c :: nat) in
      (48 \<le> n \<and> n \<le> 57) \<or> (65 \<le> n \<and> n \<le> 90) \<or> (97 \<le> n \<and> n \<le> 122) \<or> n = 95)"

definition is_name_char :: "char \<Rightarrow> bool" where
  "is_name_char c \<longleftrightarrow> is_word c \<or> c = CHR ''.'' \<or> c = CHR ''-''"

text \<open>
  \<^verbatim>\<open>regBlock = re.compile(r"^\s*\[([\w.-]+)\]\s*$", re.M)\<close>, tried at a position where
  \<^verbatim>\<open>^\<close> holds, on the text from there.  The leading \<^verbatim>\<open>\s*\<close> takes the whole run of white
  space (newlines included), since only \<^verbatim>\<open>[\<close> may follow it; the name is the whole run
  of name characters, since only \<^verbatim>\<open>]\<close> may follow it.  The trailing \<^verbatim>\<open>\s*\<close> is greedy and
  gives back until \<^verbatim>\<open>$\<close> holds: the match runs to the end of the text when only white
  space follows, and otherwise to just before the last newline of the white space
  after \<^verbatim>\<open>]\<close>; without such a newline there is no match.  The result is group 1, whether
  the last character of the match is a newline (the next search then starts at a line
  start), and the text after the match.
\<close>

definition regBlock_match :: "string \<Rightarrow> (string \<times> bool \<times> string) option" where
  "regBlock_match s =
     (case dropWhile is_space s of
        [] \<Rightarrow> None
      | c # s2 \<Rightarrow>
          if c \<noteq> CHR ''['' then None
          else
            (let name = takeWhile is_name_char s2; s3 = dropWhile is_name_char s2 in
             if name = [] then None
             else
               (case s3 of
                  [] \<Rightarrow> None
                | d # s4 \<Rightarrow>
                    if d \<noteq> CHR '']'' then None
                    else
                      (let ws = takeWhile is_space s4; s5 = dropWhile is_space s4 in
                       if s5 = [] then Some (name, False, [])
                       else if nl \<in> set ws
                       then (let tail = rev (takeWhile (\<lambda>c. c \<noteq> nl) (rev ws));
                                 matched = take (length ws - length tail - 1) ws
                             in Some (name, matched \<noteq> [] \<and> last matched = nl,
                                      nl # tail @ s5))
                       else None))))"

lemma regBlock_match_shorter:
  assumes "regBlock_match s = Some (name, b, follow)"
  shows "length follow < length s"
proof -
  from assms obtain s2 where s2: "dropWhile is_space s = CHR ''['' # s2"
    by (auto simp: regBlock_match_def split: list.splits if_splits)
  let ?s3 = "dropWhile is_name_char s2"
  from assms s2 obtain s4 where s4: "?s3 = CHR '']'' # s4"
    by (auto simp: regBlock_match_def Let_def split: list.splits if_splits)
  let ?ws = "takeWhile is_space s4" and ?s5 = "dropWhile is_space s4"
  let ?tail = "rev (takeWhile (\<lambda>c. c \<noteq> nl) (rev ?ws))"
  have l1: "length s2 < length s"
    using length_dropWhile_le [of is_space s] s2 by simp
  have l2: "length s4 < length s2"
    using length_dropWhile_le [of is_name_char s2] s4 by simp
  have l3: "length ?ws + length ?s5 = length s4"
    by (metis length_append takeWhile_dropWhile_id)
  have l4: "length ?tail \<le> length ?ws"
    using length_takeWhile_le [of "\<lambda>c. c \<noteq> nl" "rev ?ws"] by simp
  from assms s2 s4 have "follow = [] \<or> follow = nl # ?tail @ ?s5"
    by (auto simp: regBlock_match_def Let_def split: if_splits)
  with l1 l2 l3 l4 show ?thesis by auto
qed

text \<open>
  \<^verbatim>\<open>regBlock.split(text)\<close>: the text before the first match, then for every match its
  group and the text up to the next match (or the end).  The search goes from left to
  right; \<^verbatim>\<open>^\<close> holds at the start of the text and after every newline.
\<close>

function regBlock_split_from :: "bool \<Rightarrow> string \<Rightarrow> string \<Rightarrow> string list" where
  "regBlock_split_from bol piece s =
     (case (if bol then regBlock_match s else None) of
        Some (name, bol', follow) \<Rightarrow> piece # name # regBlock_split_from bol' [] follow
      | None \<Rightarrow>
          (case s of
             [] \<Rightarrow> [piece]
           | c # s' \<Rightarrow> regBlock_split_from (c = nl) (piece @ [c]) s'))"
  by pat_completeness auto
termination
proof (relation "measure (\<lambda>(bol, piece, s). length s)")
  show "wf (measure (\<lambda>(bol, piece, s). length s))" by simp
next
  fix bol :: bool and piece s :: string and m name y bol' follow
  assume "(if bol then regBlock_match s else None) = Some m"
    and "(name, y) = m" and "(bol', follow) = y"
  then have "regBlock_match s = Some (name, bol', follow)"
    by (auto split: if_splits)
  from regBlock_match_shorter [OF this]
  show "((bol', [], follow), bol, piece, s) \<in> measure (\<lambda>(bol, piece, s). length s)"
    by simp
next
  fix bol :: bool and piece s :: string and c s'
  assume "s = c # s'"
  then show "((c = nl, piece @ [c], s'), bol, piece, s) \<in> measure (\<lambda>(bol, piece, s). length s)"
    by simp
qed

declare regBlock_split_from.simps [simp del]

definition regBlock_split :: "string \<Rightarrow> string list" where
  "regBlock_split text = regBlock_split_from True [] text"

text \<open>
  \<^verbatim>\<open>regDepBlock = re.compile(r"^\s*block\s*=(\s*.*?)\s*$", re.M)\<close>, tried at a position
  where \<^verbatim>\<open>^\<close> holds.  After \<^verbatim>\<open>=\<close>, group 1 is the whole run of white space followed by
  the rest of that line without its trailing white space: the lazy \<^verbatim>\<open>.*?\<close> grows until
  only white space is left before the end of the line.
\<close>

definition regDepBlock_match :: "string \<Rightarrow> string option" where
  "regDepBlock_match s =
     (let s1 = dropWhile is_space s in
      if take 5 s1 = ''block''
      then (case dropWhile is_space (drop 5 s1) of
              [] \<Rightarrow> None
            | c # s3 \<Rightarrow>
                if c = CHR ''=''
                then (let line = takeWhile (\<lambda>c. c \<noteq> nl) (dropWhile is_space s3)
                      in Some (takeWhile is_space s3 @ rev (dropWhile is_space (rev line))))
                else None)
      else None)"

text \<open>\<^verbatim>\<open>regDepBlock.search(blockContents)\<close>: group 1 of the leftmost match.\<close>

fun regDepBlock_search_from :: "bool \<Rightarrow> string \<Rightarrow> string option" where
  "regDepBlock_search_from bol [] = None"
| "regDepBlock_search_from bol (c # s) =
     (case (if bol then regDepBlock_match (c # s) else None) of
        Some g \<Rightarrow> Some g
      | None \<Rightarrow> regDepBlock_search_from (c = nl) s)"

definition regDepBlock_search :: "string \<Rightarrow> string option" where
  "regDepBlock_search contents = regDepBlock_search_from True contents"

text \<open>
  What \<^verbatim>\<open>eval\<close> makes of the text after \<^verbatim>\<open>block =\<close>: a string, a list, or something else.
  \<^verbatim>\<open>eval\<close> itself is a parameter (\<open>None\<close> when it raises).
\<close>

datatype pyvalue = PyStr string | PyList "pyvalue list" | PyOther

text \<open>
  A block: its name, its contents, and under \<^verbatim>\<open>dependencies\<close> (a key that is only there
  when the contents declare \<^verbatim>\<open>block = ...\<close>) the declared prerequisites.
\<close>

record block =
  blk_name :: string
  blk_contents :: string
  blk_dependencies :: "pyvalue list option"

text \<open>
  The errors of the splitter: a block name found twice and a failed write (both raised
  through the logger), the file that cannot be read, \<^verbatim>\<open>eval\<close> raising, and \<^verbatim>\<open>pop\<close> from an
  empty list.
\<close>

datatype block_error =
    BlockTwice string string
  | WriteFailed string string
  | CannotRead string
  | EvalFailed string
  | PopFromEmpty

text \<open>
  The loop \<^verbatim>\<open>while pieces\<close>: name and contents are popped in turn; a name that is already
  there is an error; the declaration \<^verbatim>\<open>block = ...\<close> is looked for, evaluated, and kept as
  a list (a value that is not a list is the only element).
\<close>

fun make_blocks ::
  "(string \<Rightarrow> pyvalue option) \<Rightarrow> string \<Rightarrow> string list \<Rightarrow> block list
    \<Rightarrow> block_error + block list" where
  "make_blocks ev path [] blocks = Inr blocks"
| "make_blocks ev path [blockName] blocks = Inl PopFromEmpty"
| "make_blocks ev path (blockName # blockContents # pieces) blocks =
     (if blockName \<in> set (map blk_name blocks) then Inl (BlockTwice blockName path)
      else
        (case regDepBlock_search blockContents of
           None \<Rightarrow>
             make_blocks ev path pieces
               (blocks @ [\<lparr>blk_name = blockName, blk_contents = blockContents,
                            blk_dependencies = None\<rparr>])
         | Some g \<Rightarrow>
             (case ev g of
                None \<Rightarrow> Inl (EvalFailed g)
              | Some v \<Rightarrow>
                  make_blocks ev path pieces
                    (blocks @ [\<lparr>blk_name = blockName, blk_contents = blockContents,
                                 blk_dependencies =
                                   Some (case v of PyList vs \<Rightarrow> vs | _ \<Rightarrow> [v])\<rparr>]))))"

text \<open>
  The writes for the declared prerequisites of a block, appended to the file written so
  far.  A prerequisite that is not the name of a block is an error: \<^verbatim>\<open>log.error\<close> raises
  inside the \<^verbatim>\<open>try\<close>, and the handler raises in turn through \<^verbatim>\<open>log.exception\<close>.
\<close>

fun write_dependencies ::
  "block list \<Rightarrow> string \<Rightarrow> string \<Rightarrow> pyvalue list \<Rightarrow> string \<Rightarrow> block_error + string" where
  "write_dependencies blocks name path [] f = Inr f"
| "write_dependencies blocks name path (dep # deps) f =
     (case dep of
        PyStr d \<Rightarrow>
          (case find (\<lambda>b. blk_name b = d) blocks of
             None \<Rightarrow> Inl (WriteFailed name path)
           | Some b \<Rightarrow>
               write_dependencies blocks name path deps
                 (f @ nl # ''# Dependency block '' @ blk_name b @ blk_contents b))
      | _ \<Rightarrow> Inl (WriteFailed name path))"

text \<open>The file written for one block: the common part, the prerequisites, the block.\<close>

definition write_block ::
  "string \<Rightarrow> block list \<Rightarrow> string \<Rightarrow> block \<Rightarrow> block_error + string" where
  "write_block common blocks path b =
     (case (case blk_dependencies b of
              None \<Rightarrow> Inr common
            | Some deps \<Rightarrow> write_dependencies blocks (blk_name b) path deps common) of
        Inl e \<Rightarrow> Inl e
      | Inr f \<Rightarrow> Inr (f @ nl # ''# Main block '' @ blk_name b @ blk_contents b))"

text \<open>\<^verbatim>\<open>if onlyBlocks and not (name in onlyBlocks)\<close>: the block is skipped.\<close>

definition skipped :: "string list option \<Rightarrow> block \<Rightarrow> bool" where
  "skipped onlyBlocks b =
     (case onlyBlocks of
        None \<Rightarrow> False
      | Some names \<Rightarrow> names \<noteq> [] \<and> blk_name b \<notin> set names)"

text \<open>
  The loop over the blocks.  \<open>mkstemp k suffix\<close> is the path that the \<open>k\<close>-th call of
  \<^verbatim>\<open>tempfile.mkstemp\<close> makes up.  The result lists the files written, path and content.
\<close>

fun write_blocks ::
  "(nat \<Rightarrow> string \<Rightarrow> string) \<Rightarrow> string \<Rightarrow> string \<Rightarrow> block list \<Rightarrow> string
    \<Rightarrow> string list option \<Rightarrow> block list \<Rightarrow> nat \<Rightarrow> block_error + (string \<times> string) list" where
  "write_blocks mkstemp cfgName common blocks path onlyBlocks [] k = Inr []"
| "write_blocks mkstemp cfgName common blocks path onlyBlocks (b # bs) k =
     (if skipped onlyBlocks b
      then write_blocks mkstemp cfgName common blocks path onlyBlocks bs k
      else
        (let blockPath = mkstemp k (cfgName @ ''-'' @ blk_name b) in
         case write_block common blocks path b of
           Inl e \<Rightarrow> Inl e
         | Inr f \<Rightarrow>
             (case write_blocks mkstemp cfgName common blocks path onlyBlocks bs (Suc k) of
                Inl e \<Rightarrow> Inl e
              | Inr written \<Rightarrow> Inr ((blockPath, f) # written))))"

text \<open>\<^verbatim>\<open>os.path.basename\<close>: what follows the last slash.\<close>

definition basename :: "string \<Rightarrow> string" where
  "basename p = rev (takeWhile (\<lambda>c. c \<noteq> CHR ''/'') (rev p))"

text \<open>
  \<^verbatim>\<open>retrieveBlocksInSpec(spec, log, onlyBlocks)\<close>.  \<open>files\<close> gives the text of the files that
  can be read.  The result is the list of paths returned and the files written.
\<close>

definition retrieveBlocksInSpec ::
  "(nat \<Rightarrow> string \<Rightarrow> string) \<Rightarrow> (string \<Rightarrow> pyvalue option) \<Rightarrow> (string \<rightharpoonup> string)
    \<Rightarrow> string \<Rightarrow> string list option \<Rightarrow> block_error + (string list \<times> (string \<times> string) list)" where
  "retrieveBlocksInSpec mkstemp ev files path onlyBlocks =
     (case files path of
        None \<Rightarrow> Inl (CannotRead path)
      | Some text \<Rightarrow>
          (case regBlock_split text of
             [] \<Rightarrow> Inl PopFromEmpty
           | common # pieces \<Rightarrow>
               if pieces \<noteq> []
               then (case make_blocks ev path pieces [] of
                       Inl e \<Rightarrow> Inl e
                     | Inr blocks \<Rightarrow>
                         (case write_blocks mkstemp (basename path) common blocks path
                                 onlyBlocks blocks 0 of
                            Inl e \<Rightarrow> Inl e
                          | Inr written \<Rightarrow> Inr (map fst written, written)))
               else Inr ([path], [])))"

section \<open>A source without block headers\<close>

text \<open>
  In the words of the spec: the text has a line containing only \<^verbatim>\<open>[blockname]\<close>.  White
  space around the bracketed name does not count: from \<^verbatim>\<open>[\<close> back to the previous newline
  (or the start of the text) and from \<^verbatim>\<open>]\<close> on to the next newline (or the end) there is
  only white space, and the name is a non-empty run of name characters.
\<close>

definition has_header_line :: "string \<Rightarrow> bool" where
  "has_header_line text \<longleftrightarrow>
     (\<exists>pre name post.
        text = pre @ CHR ''['' # name @ CHR '']'' # post \<and>
        name \<noteq> [] \<and> list_all is_name_char name \<and>
        list_all is_space (takeWhile (\<lambda>c. c \<noteq> nl) (rev pre)) \<and>
        list_all is_space (takeWhile (\<lambda>c. c \<noteq> nl) post))"

lemma list_all_takeWhile: "list_all P xs \<Longrightarrow> list_all P (takeWhile Q xs)"
  by (induction xs) auto

lemma regBlock_match_decompose:
  assumes "regBlock_match s = Some (name, b, follow)"
  shows "\<exists>w post. s = w @ CHR ''['' # name @ CHR '']'' # post \<and> list_all is_space w \<and>
      name \<noteq> [] \<and> list_all is_name_char name \<and>
      list_all is_space (takeWhile (\<lambda>c. c \<noteq> nl) post)"
proof -
  let ?w = "takeWhile is_space s"
  from assms obtain s2 where s2: "dropWhile is_space s = CHR ''['' # s2"
    by (auto simp: regBlock_match_def split: list.splits if_splits)
  let ?s3 = "dropWhile is_name_char s2"
  from assms s2 have name: "name = takeWhile is_name_char s2" and ne: "name \<noteq> []"
    by (auto simp: regBlock_match_def Let_def split: list.splits if_splits)
  from assms s2 obtain s4 where s4: "?s3 = CHR '']'' # s4"
    by (auto simp: regBlock_match_def Let_def split: list.splits if_splits)
  let ?ws = "takeWhile is_space s4" and ?s5 = "dropWhile is_space s4"
  from assms s2 s4 have fin: "?s5 = [] \<or> nl \<in> set ?ws"
    by (auto simp: regBlock_match_def Let_def split: if_splits)
  have "s = ?w @ dropWhile is_space s" by simp
  also have "dropWhile is_space s = CHR ''['' # name @ ?s3"
    using s2 name by simp
  finally have decomp: "s = ?w @ CHR ''['' # name @ CHR '']'' # s4"
    using s4 by simp
  have w: "list_all is_space ?w"
    by (simp add: list_all_iff) (metis set_takeWhileD)
  have nm: "list_all is_name_char name"
    unfolding name by (simp add: list_all_iff) (metis set_takeWhileD)
  have ws: "list_all is_space ?ws"
    by (simp add: list_all_iff) (metis set_takeWhileD)
  have s4_eq: "s4 = ?ws @ ?s5" by simp
  have "list_all is_space (takeWhile (\<lambda>c. c \<noteq> nl) s4)"
  proof (cases "?s5 = []")
    case True
    with s4_eq have "s4 = ?ws" by simp
    with list_all_takeWhile [OF ws] show ?thesis by metis
  next
    case False
    with fin have "nl \<in> set ?ws" by blast
    then have "takeWhile (\<lambda>c. c \<noteq> nl) (?ws @ ?s5) = takeWhile (\<lambda>c. c \<noteq> nl) ?ws"
      by (intro takeWhile_append1) auto
    with s4_eq list_all_takeWhile [OF ws] show ?thesis by metis
  qed
  with decomp w ne nm show ?thesis by blast
qed

lemma regBlock_match_header_line:
  assumes "regBlock_match s = Some (name, b, follow)" and "p = [] \<or> last p = nl"
  shows "has_header_line (p @ s)"
proof -
  from regBlock_match_decompose [OF assms(1)] obtain w post where
    s: "s = w @ CHR ''['' # name @ CHR '']'' # post" and w: "list_all is_space w"
    and ne: "name \<noteq> []" and nm: "list_all is_name_char name"
    and post: "list_all is_space (takeWhile (\<lambda>c. c \<noteq> nl) post)"
    by blast
  have revw: "list_all is_space (rev w)" using w by (simp add: list_all_iff)
  have start: "takeWhile (\<lambda>c. c \<noteq> nl) (rev p) = []"
    using assms(2) by (cases p rule: rev_cases) auto
  have "list_all is_space (takeWhile (\<lambda>c. c \<noteq> nl) (rev (p @ w)))"
  proof (cases "nl \<in> set w")
    case True
    then have "takeWhile (\<lambda>c. c \<noteq> nl) (rev w @ rev p) = takeWhile (\<lambda>c. c \<noteq> nl) (rev w)"
      by (intro takeWhile_append1) auto
    with list_all_takeWhile [OF revw] show ?thesis by simp
  next
    case False
    then have "takeWhile (\<lambda>c. c \<noteq> nl) (rev w @ rev p)
        = rev w @ takeWhile (\<lambda>c. c \<noteq> nl) (rev p)"
      by (intro takeWhile_append2) auto
    with start revw show ?thesis by simp
  qed
  moreover have "p @ s = (p @ w) @ CHR ''['' # name @ CHR '']'' # post"
    using s by simp
  ultimately show ?thesis
    unfolding has_header_line_def using ne nm post by blast
qed

lemma regBlock_split_no_header:
  assumes "\<not> has_header_line (p @ s)" and "bol \<longrightarrow> p = [] \<or> last p = nl"
  shows "regBlock_split_from bol piece s = [piece @ s]"
  using assms
proof (induction s arbitrary: p bol piece)
  case Nil
  have "regBlock_match [] = None" by (simp add: regBlock_match_def)
  then show ?case by (simp add: regBlock_split_from.simps [of bol piece "[]"])
next
  case (Cons c s)
  have none: "(if bol then regBlock_match (c # s) else None) = None"
  proof (cases bol)
    case True
    show ?thesis
    proof (cases "regBlock_match (c # s)")
      case None
      then show ?thesis by simp
    next
      case (Some m)
      obtain name b follow where "m = (name, b, follow)" by (cases m)
      with Some have "regBlock_match (c # s) = Some (name, b, follow)" by simp
      from regBlock_match_header_line [OF this] Cons.prems True
      show ?thesis by blast
    qed
  next
    case False
    then show ?thesis by simp
  qed
  have "\<not> has_header_line ((p @ [c]) @ s)" using Cons.prems(1) by simp
  moreover have "c = nl \<longrightarrow> p @ [c] = [] \<or> last (p @ [c]) = nl" by simp
  ultimately have "regBlock_split_from (c = nl) (piece @ [c]) s = [(piece @ [c]) @ s]"
    by (rule Cons.IH)
  with none show ?case
    by (simp add: regBlock_split_from.simps [of bol piece "c # s"])
qed

definition plain_text :: string where
  "plain_text = ''name = 'zlib' # no blocks'' @ [nl] @ ''toolkit = {'name': 'dummy'} # none'' @ [nl]"

text \<open>
  Claim C8.  When the file can be read and its text has no block header line,
  \<^verbatim>\<open>retrieveBlocksInSpec\<close> returns the one-element list with the given path, and writes no
  file.
\<close>

theorem retrieveBlocksInSpec_no_header:
  assumes "files path = Some text" and "\<not> has_header_line text"
  shows "retrieveBlocksInSpec mkstemp ev files path onlyBlocks = Inr ([path], [])"
proof -
  have "regBlock_split_from True [] text = [[] @ text]"
    by (rule regBlock_split_no_header [where p = "[]"]) (simp_all add: assms(2))
  then have "regBlock_split text = [text]" by (simp add: regBlock_split_def)
  with assms(1) show ?thesis by (simp add: retrieveBlocksInSpec_def)
qed

theorem retrieveBlocksInSpec_no_header_witness:
  "retrieveBlocksInSpec (\<lambda>k sfx. ''/tmp/easybuild-'' @ sfx) (\<lambda>g. None)
       [''/ebs/zlib.eb'' \<mapsto> plain_text] ''/ebs/zlib.eb'' None
     = Inr ([''/ebs/zlib.eb''], [])"
proof -
  have "CHR ''['' \<notin> set plain_text"
    by (simp add: plain_text_def nl_def)
  then have "\<not> has_header_line plain_text"
    unfolding has_header_line_def
    by (metis in_set_conv_decomp)
  moreover have "[''/ebs/zlib.eb'' \<mapsto> plain_text] ''/ebs/zlib.eb'' = Some plain_text"
    by simp
  ultimately show ?thesis
    by (rule retrieveBlocksInSpec_no_header [rotated])
qed


section \<open>The files written for the blocks\<close>

text \<open>
  The blocks that the declared prerequisites name, in the declared order.
\<close>

definition declared :: "block \<Rightarrow> pyvalue list" where
  "declared b = (case blk_dependencies b of None \<Rightarrow> [] | Some deps \<Rightarrow> deps)"

definition prerequisite :: "block list \<Rightarrow> pyvalue \<Rightarrow> block option" where
  "prerequisite blocks dep =
     (case dep of PyStr d \<Rightarrow> find (\<lambda>b. blk_name b = d) blocks | _ \<Rightarrow> None)"

definition prerequisites :: "block list \<Rightarrow> block \<Rightarrow> block list" where
  "prerequisites blocks b = List.map_filter (prerequisite blocks) (declared b)"

text \<open>
  The content of the file for a block as the code writes it: the common part; for every
  prerequisite a comment line naming it and its contents; a comment line naming the
  block and its contents.
\<close>

definition synthesized :: "string \<Rightarrow> block list \<Rightarrow> block \<Rightarrow> string" where
  "synthesized common blocks b =
     common @
     concat (map (\<lambda>d. nl # ''# Dependency block '' @ blk_name d @ blk_contents d)
               (prerequisites blocks b)) @
     nl # ''# Main block '' @ blk_name b @ blk_contents b"

text \<open>
  The content in the words of the spec (section 4.1): common prelude, each prerequisite
  block's content in declared order, the block's own content.
\<close>

definition spec_synthesized :: "string \<Rightarrow> block list \<Rightarrow> block \<Rightarrow> string" where
  "spec_synthesized common blocks b =
     common @ concat (map blk_contents (prerequisites blocks b)) @ blk_contents b"

lemma write_dependencies_content:
  assumes "write_dependencies blocks name path deps f = Inr f'"
  shows "f' = f @ concat (map (\<lambda>d. nl # ''# Dependency block '' @ blk_name d @ blk_contents d)
                       (List.map_filter (prerequisite blocks) deps)) \<and>
         (\<forall>dep \<in> set deps. \<exists>d. dep = PyStr d \<and> d \<in> blk_name ` set blocks)"
  using assms
proof (induction deps arbitrary: f)
  case Nil
  then show ?case by (simp add: map_filter_simps)
next
  case (Cons dep deps)
  from Cons.prems obtain d b where dep: "dep = PyStr d"
    and b: "find (\<lambda>b. blk_name b = d) blocks = Some b"
    and rec: "write_dependencies blocks name path deps
         (f @ nl # ''# Dependency block '' @ blk_name b @ blk_contents b) = Inr f'"
    by (auto split: pyvalue.splits option.splits)
  from b have "d \<in> blk_name ` set blocks"
    by (auto simp: find_Some_iff image_iff)
  with Cons.IH [OF rec] dep b show ?case
    by (simp add: map_filter_simps prerequisite_def)
qed

lemma write_block_content:
  assumes "write_block common blocks path b = Inr f"
  shows "f = synthesized common blocks b \<and>
         (\<forall>dep \<in> set (declared b). \<exists>d. dep = PyStr d \<and> d \<in> blk_name ` set blocks)"
proof (cases "blk_dependencies b")
  case None
  with assms show ?thesis
    by (simp add: write_block_def synthesized_def prerequisites_def declared_def map_filter_simps)
next
  case (Some deps)
  with assms obtain f0 where
    w: "write_dependencies blocks (blk_name b) path deps common = Inr f0"
    and f: "f = f0 @ nl # ''# Main block '' @ blk_name b @ blk_contents b"
    by (auto simp: write_block_def split: sum.splits)
  from write_dependencies_content [OF w] f Some show ?thesis
    by (simp add: synthesized_def prerequisites_def declared_def)
qed

lemma write_blocks_content:
  assumes "write_blocks mkstemp cfgName common blocks path onlyBlocks bs k = Inr written"
  shows "map snd written
           = map (synthesized common blocks) (filter (\<lambda>b. \<not> skipped onlyBlocks b) bs) \<and>
         (\<forall>b \<in> set bs. \<not> skipped onlyBlocks b \<longrightarrow>
            (\<forall>dep \<in> set (declared b). \<exists>d. dep = PyStr d \<and> d \<in> blk_name ` set blocks))"
  using assms
proof (induction bs arbitrary: k written)
  case Nil
  then show ?case by simp
next
  case (Cons b bs)
  show ?case
  proof (cases "skipped onlyBlocks b")
    case True
    with Cons.prems have "write_blocks mkstemp cfgName common blocks path onlyBlocks bs k
        = Inr written" by simp
    from Cons.IH [OF this] True show ?thesis by simp
  next
    case False
    with Cons.prems obtain f rest_written where
      wb: "write_block common blocks path b = Inr f"
      and rec: "write_blocks mkstemp cfgName common blocks path onlyBlocks bs (Suc k)
          = Inr rest_written"
      and written: "written = (mkstemp k (cfgName @ ''-'' @ blk_name b), f) # rest_written"
      by (auto simp: Let_def split: sum.splits)
    from write_block_content [OF wb] Cons.IH [OF rec] written False
    show ?thesis by simp
  qed
qed

lemma make_blocks_shape:
  assumes "make_blocks ev path pieces acc = Inr blocks"
  shows "\<exists>new. blocks = acc @ new \<and>
           concat (map (\<lambda>b. [blk_name b, blk_contents b]) new) = pieces \<and>
           (distinct (map blk_name acc) \<longrightarrow> distinct (map blk_name blocks))"
  using assms
proof (induction ev path pieces acc rule: make_blocks.induct)
  case (1 ev path blocks)
  then show ?case by simp
next
  case (2 ev path blockName blocks)
  then show ?case by simp
next
  case (3 ev path blockName blockContents pieces acc)
  from "3.prems" have fresh: "blockName \<notin> set (map blk_name acc)"
    by (auto split: if_splits)
  show ?case
  proof (cases "regDepBlock_search blockContents")
    case None
    let ?b = "\<lparr>blk_name = blockName, blk_contents = blockContents, blk_dependencies = None\<rparr>"
    from "3.prems" fresh None have "make_blocks ev path pieces (acc @ [?b]) = Inr blocks"
      by simp
    from "3.IH"(1) [OF fresh None this] obtain new where
      "blocks = (acc @ [?b]) @ new"
      "concat (map (\<lambda>b. [blk_name b, blk_contents b]) new) = pieces"
      "distinct (map blk_name (acc @ [?b])) \<longrightarrow> distinct (map blk_name blocks)"
      by blast
    with fresh show ?thesis
      by (intro exI [of _ "?b # new"]) auto
  next
    case (Some g)
    with "3.prems" fresh obtain v where v: "ev g = Some v"
      by (auto split: option.splits)
    let ?b = "\<lparr>blk_name = blockName, blk_contents = blockContents,
        blk_dependencies = Some (case v of PyList vs \<Rightarrow> vs | _ \<Rightarrow> [v])\<rparr>"
    from "3.prems" fresh Some v have "make_blocks ev path pieces (acc @ [?b]) = Inr blocks"
      by simp
    from "3.IH"(2) [OF fresh Some v this] obtain new where
      "blocks = (acc @ [?b]) @ new"
      "concat (map (\<lambda>b. [blk_name b, blk_contents b]) new) = pieces"
      "distinct (map blk_name (acc @ [?b])) \<longrightarrow> distinct (map blk_name blocks)"
      by blast
    with fresh show ?thesis
      by (intro exI [of _ "?b # new"]) auto
  qed
qed

text \<open>
  Example: a common part, a block A, and a block B that declares A as its prerequisite.
\<close>

definition ab_text :: string where
  "ab_text = ''x = 1'' @ [nl] @ ''[A]'' @ [nl] @ ''a = 1'' @ [nl] @
             ''[B]'' @ [nl] @ ''block = 'A' # needs A'' @ [nl] @ ''b = 2'' @ [nl]"

definition ab_eval :: "string \<Rightarrow> pyvalue option" where
  "ab_eval g = (if g = '' 'A' # needs A'' then Some (PyStr ''A'') else None)"

definition ab_mkstemp :: "nat \<Rightarrow> string \<Rightarrow> string" where
  "ab_mkstemp k suffix = ''/tmp/easybuild-'' @ replicate k CHR ''x'' @ suffix"

definition ab_blocks :: "block list" where
  "ab_blocks =
     [\<lparr>blk_name = ''A'', blk_contents = [nl] @ ''a = 1'' @ [nl], blk_dependencies = None\<rparr>,
      \<lparr>blk_name = ''B'',
        blk_contents = [nl] @ ''block = 'A' # needs A'' @ [nl] @ ''b = 2'' @ [nl],
        blk_dependencies = Some [PyStr ''A'']\<rparr>]"

text \<open>
  Claim C7, as stated, against the code.  For the block B of the example the claim gives
  the common part, then the contents of A, then the contents of B.  The file that the
  code writes has two more lines: one that names the prerequisite before its contents,
  and one that names the block before its own contents.
\<close>

theorem retrieveBlocksInSpec_counterexample:
  "regBlock_split ab_text
     = [''x = 1'' @ [nl], ''A'', blk_contents (ab_blocks ! 0), ''B'', blk_contents (ab_blocks ! 1)] \<and>
   retrieveBlocksInSpec ab_mkstemp ab_eval [''/ebs/ab.eb'' \<mapsto> ab_text] ''/ebs/ab.eb'' None
     = Inr ([''/tmp/easybuild-ab.eb-A'', ''/tmp/easybuild-xab.eb-B''],
            [(''/tmp/easybuild-ab.eb-A'',
              ''x = 1'' @ [nl] @ [nl] @ ''# Main block A'' @ [nl] @ ''a = 1'' @ [nl]),
             (''/tmp/easybuild-xab.eb-B'',
              ''x = 1'' @ [nl] @ [nl] @ ''# Dependency block A'' @ [nl] @ ''a = 1'' @ [nl] @
              [nl] @ ''# Main block B'' @ [nl] @ ''block = 'A' # needs A'' @ [nl] @
              ''b = 2'' @ [nl])]) \<and>
   spec_synthesized (''x = 1'' @ [nl]) ab_blocks (ab_blocks ! 1)
     = ''x = 1'' @ [nl] @ [nl] @ ''a = 1'' @ [nl] @
       [nl] @ ''block = 'A' # needs A'' @ [nl] @ ''b = 2'' @ [nl] \<and>
   spec_synthesized (''x = 1'' @ [nl]) ab_blocks (ab_blocks ! 1)
     \<noteq> ''x = 1'' @ [nl] @ [nl] @ ''# Dependency block A'' @ [nl] @ ''a = 1'' @ [nl] @
       [nl] @ ''# Main block B'' @ [nl] @ ''block = 'A' # needs A'' @ [nl] @ ''b = 2'' @ [nl]"
  by code_simp

text \<open>
  Claim C7, amended.  Let the text of the file split into a common part and at least
  one block, and let \<^verbatim>\<open>retrieveBlocksInSpec\<close> return.  Then the blocks are the named parts
  of the text, with pairwise different names; one file is written for every block that
  the allow-list does not exclude, in the order of the blocks, and the paths of these
  files are returned.  The file for a block holds the common part, then for each of
  its declared prerequisites, in declared order, a line \<^verbatim>\<open># Dependency block\<close> with the
  prerequisite's name followed by the prerequisite's contents, then a line
  \<^verbatim>\<open># Main block\<close> with the block's name followed by the block's own contents.  Every
  declared prerequisite of such a block is the name of a block of the file.
\<close>

theorem retrieveBlocksInSpec_content:
  assumes read: "files path = Some text"
    and split: "regBlock_split text = common # pieces"
    and some: "pieces \<noteq> []"
    and ok: "retrieveBlocksInSpec mkstemp ev files path onlyBlocks = Inr (specs, written)"
  shows "\<exists>blocks.
     make_blocks ev path pieces [] = Inr blocks \<and>
     concat (map (\<lambda>b. [blk_name b, blk_contents b]) blocks) = pieces \<and>
     distinct (map blk_name blocks) \<and>
     specs = map fst written \<and>
     map snd written
       = map (synthesized common blocks) (filter (\<lambda>b. \<not> skipped onlyBlocks b) blocks) \<and>
     (\<forall>b \<in> set blocks. \<not> skipped onlyBlocks b \<longrightarrow>
        (\<forall>dep \<in> set (declared b). \<exists>d. dep = PyStr d \<and> d \<in> blk_name ` set blocks))"
proof -
  from ok read split some obtain blocks where
    mk: "make_blocks ev path pieces [] = Inr blocks"
    and wr: "write_blocks mkstemp (basename path) common blocks path onlyBlocks blocks 0
        = Inr written"
    and specs: "specs = map fst written"
    by (auto simp: retrieveBlocksInSpec_def split: sum.splits)
  from make_blocks_shape [OF mk]
  have "concat (map (\<lambda>b. [blk_name b, blk_contents b]) blocks) = pieces"
    and "distinct (map blk_name blocks)"
    by auto
  with mk specs write_blocks_content [OF wr] show ?thesis by blast
qed

theorem retrieveBlocksInSpec_content_witness:
  "\<exists>specs written.
     retrieveBlocksInSpec ab_mkstemp ab_eval [''/ebs/ab.eb'' \<mapsto> ab_text] ''/ebs/ab.eb''
         (Some [''B''])
       = Inr (specs, written) \<and>
     specs = [''/tmp/easybuild-ab.eb-B''] \<and>
     map snd written = [synthesized (''x = 1'' @ [nl]) ab_blocks (ab_blocks ! 1)] \<and>
     synthesized (''x = 1'' @ [nl]) ab_blocks (ab_blocks ! 1)
       = ''x = 1'' @ [nl] @ [nl] @ ''# Dependency block A'' @ [nl] @ ''a = 1'' @ [nl] @
         [nl] @ ''# Main block B'' @ [nl] @ ''block = 'A' # needs A'' @ [nl] @ ''b = 2'' @ [nl]"
proof -
  let ?files = "[''/ebs/ab.eb'' \<mapsto> ab_text]"
  let ?pieces = "[''A'', blk_contents (ab_blocks ! 0), ''B'', blk_contents (ab_blocks ! 1)]"
  have read: "?files ''/ebs/ab.eb'' = Some ab_text" by simp
  have split: "regBlock_split ab_text = (''x = 1'' @ [nl]) # ?pieces" by code_simp
  have some: "?pieces \<noteq> []" by simp
  have run: "retrieveBlocksInSpec ab_mkstemp ab_eval ?files ''/ebs/ab.eb'' (Some [''B''])
      = Inr ([''/tmp/easybuild-ab.eb-B''],
             [(''/tmp/easybuild-ab.eb-B'',
               ''x = 1'' @ [nl] @ [nl] @ ''# Dependency block A'' @ [nl] @ ''a = 1'' @ [nl] @
               [nl] @ ''# Main block B'' @ [nl] @ ''block = 'A' # needs A'' @ [nl] @
               ''b = 2'' @ [nl])])"
    by code_simp
  have blocks: "make_blocks ab_eval ''/ebs/ab.eb'' ?pieces [] = Inr ab_blocks" by code_simp
  have only: "filter (\<lambda>b. \<not> skipped (Some [''B'']) b) ab_blocks = [ab_blocks ! 1]"
    by code_simp
  have content: "synthesized (''x = 1'' @ [nl]) ab_blocks (ab_blocks ! 1)
       = ''x = 1'' @ [nl] @ [nl] @ ''# Dependency block A'' @ [nl] @ ''a = 1'' @ [nl] @
         [nl] @ ''# Main block B'' @ [nl] @ ''block = 'A' # needs A'' @ [nl] @ ''b = 2'' @ [nl]"
    by code_simp
  from retrieveBlocksInSpec_content [OF read split some run] blocks only
  have "map snd [(''/tmp/easybuild-ab.eb-B'',
               ''x = 1'' @ [nl] @ [nl] @ ''# Dependency block A'' @ [nl] @ ''a = 1'' @ [nl] @
               [nl] @ ''# Main block B'' @ [nl] @ ''block = 'A' # needs A'' @ [nl] @
               ''b = 2'' @ [nl])]
      = [synthesized (''x = 1'' @ [nl]) ab_blocks (ab_blocks ! 1)]"
    by auto
  with run content show ?thesis by simp
qed

end
